theory Spec2Isabelle
  imports Main "HOL-Library.Signed_Division" "HOL-Library.Multiset"
begin

section \<open>Time, durations and errors\<close>

text \<open>
  Go's \<^verbatim>\<open>time.Duration\<close> and the access counter are \<^verbatim>\<open>int64\<close>. They are modelled as
  \<^typ>\<open>int\<close>, with the wrap-around of the one multiplication and the one increment of the
  code written out by \<open>wrap64\<close>. An instant (\<^verbatim>\<open>time.Time\<close>) is a number of nanoseconds;
  \<^verbatim>\<open>t.Sub(u)\<close> saturates at the smallest and largest duration, as the \<^verbatim>\<open>time\<close> package
  documents. Go's integer division truncates toward zero: \<open>sdiv\<close>.
\<close>

type_synonym Duration = int
type_synonym Time = int

definition minDuration :: Duration where
  "minDuration = - 9223372036854775808"

definition maxDuration :: Duration where
  "maxDuration = 9223372036854775807"

definition wrap64 :: "int \<Rightarrow> int" where
  "wrap64 x = (x + 9223372036854775808) mod 18446744073709551616 - 9223372036854775808"

definition Sub :: "Time \<Rightarrow> Time \<Rightarrow> Duration" where
  "Sub t u = (let d = t - u in
     if d < minDuration then minDuration
     else if maxDuration < d then maxDuration
     else d)"

text \<open>
  \<^verbatim>\<open>ErrKeyNotFound\<close> is the package's own error value; any other error is one a data
  loader made up. Calling a nil function value panics.
\<close>

datatype error = ErrKeyNotFound | ErrOther string

datatype panic = NilFuncCall

section \<open>Cache items\<close>

text \<open>
  A callback is a Go closure. The model keeps its identity only: running it appends an
  event to the trace and leaves the table alone.
\<close>

type_synonym callback = nat

text \<open>
  Modelled from the spec: the struct \<^verbatim>\<open>CacheItem\<close> and its methods live in a file that
  is not among the sources. The field names are the ones the table code reads
  (\<^verbatim>\<open>item.key\<close>, \<^verbatim>\<open>item.lifeSpan\<close>, \<^verbatim>\<open>item.accessedOn\<close>, \<^verbatim>\<open>item.createdOn\<close>,
  \<^verbatim>\<open>v.accessCount\<close>, \<^verbatim>\<open>r.aboutToExpire\<close>). The value is an \<^verbatim>\<open>interface{}\<close>: \<open>None\<close> is nil.
  The table stores pointers to items; the model stores the items themselves. The
  entry's own mutex is left out.
\<close>

record ('k, 'v) CacheItem =
  key :: 'k
  data :: "'v option"
  lifeSpan :: Duration
  createdOn :: Time
  accessedOn :: Time
  accessCount :: int
  aboutToExpire :: "callback list"

text \<open>
  Modelled from the spec: \<^verbatim>\<open>NewCacheItem\<close> is not among the sources. An entry is built
  with \<open>createdOn = accessedOn = now\<close>, \<open>accessCount = 0\<close> and no observer; \<open>now\<close> is
  the clock reading at construction.
\<close>

definition NewCacheItem :: "'k \<Rightarrow> Duration \<Rightarrow> 'v option \<Rightarrow> Time \<Rightarrow> ('k, 'v) CacheItem" where
  "NewCacheItem k l d now =
     \<lparr>key = k, data = d, lifeSpan = l, createdOn = now, accessedOn = now,
      accessCount = 0, aboutToExpire = []\<rparr>"

text \<open>
  Modelled from the spec: \<^verbatim>\<open>KeepAlive\<close> is not among the sources. It sets
  \<open>accessedOn = now\<close> and increments \<open>accessCount\<close> by one.
\<close>

definition KeepAlive :: "Time \<Rightarrow> ('k, 'v) CacheItem \<Rightarrow> ('k, 'v) CacheItem" where
  "KeepAlive now item =
     item\<lparr>accessedOn := now, accessCount := wrap64 (accessCount item + 1)\<rparr>"

text \<open>
  Modelled from the spec: the entry-level registry (\<^verbatim>\<open>SetAboutToExpireCallback\<close>,
  \<^verbatim>\<open>AddAboutToExpireCallback\<close>, \<^verbatim>\<open>RemoveAboutToExpireCallback\<close>) is not among the
  sources. Set clears a non-empty registry first and then appends; Add appends; Remove
  clears.
\<close>

definition RemoveAboutToExpireCallback :: "('k, 'v) CacheItem \<Rightarrow> ('k, 'v) CacheItem" where
  "RemoveAboutToExpireCallback item = item\<lparr>aboutToExpire := []\<rparr>"

definition AddAboutToExpireCallback :: "callback \<Rightarrow> ('k, 'v) CacheItem \<Rightarrow> ('k, 'v) CacheItem" where
  "AddAboutToExpireCallback f item = item\<lparr>aboutToExpire := aboutToExpire item @ [f]\<rparr>"

definition SetAboutToExpireCallback :: "callback \<Rightarrow> ('k, 'v) CacheItem \<Rightarrow> ('k, 'v) CacheItem" where
  "SetAboutToExpireCallback f item =
     (let item1 = (if length (aboutToExpire item) > 0
                   then RemoveAboutToExpireCallback item else item)
      in item1\<lparr>aboutToExpire := aboutToExpire item1 @ [f]\<rparr>)"

section \<open>Tables, the world around them, and traces\<close>

text \<open>
  The janitor of the source holds its interval and a stop channel; the goroutine that
  \<^verbatim>\<open>runJanitor\<close> starts is not modelled, so a janitor that is present is a started one.
\<close>

record janitor =
  Interval :: Duration

text \<open>
  A data loader is a closure: it may read and change state of its own (the test suite's
  loader counts its calls). \<open>'s\<close> is that state; the loader returns the value, the
  lifespan and the error (\<open>None\<close> is nil) with the state it leaves.
\<close>

type_synonym ('k, 'v, 's) loader = "'k \<Rightarrow> 's \<Rightarrow> ('v option \<times> Duration \<times> error option) \<times> 's"

text \<open>
  The struct \<^verbatim>\<open>CacheTable\<close>. A nil slice and an empty slice are both \<open>[]\<close>; a nil
  function or pointer is \<open>None\<close>. The mutex appears in the trace, not in the record. The
  logger only prints and is left out, and so is the single-flight group, which is
  idle between calls when one goroutine runs.
\<close>

record ('k, 'v, 's) CacheTable =
  name :: string
  items :: "'k \<rightharpoonup> ('k, 'v) CacheItem"
  cleanupInterval :: Duration
  defaultExpiration :: Duration
  enableNullData :: bool
  enableAutoLoad :: bool
  janitor :: "janitor option"
  loadData :: "('k, 'v, 's) loader option"
  addedItem :: "callback list"
  aboutToDeleteItem :: "callback list"

text \<open>
  What one goroutine does to the table mutex and the map, and which callbacks it runs
  with which argument, in program order.
\<close>

datatype ('k, 'v) event =
    Lock
  | Unlock
  | RLock
  | RUnlock
  | StoreItem 'k "('k, 'v) CacheItem"
  | DeleteItem 'k
  | LoadData 'k
  | AddedItemCb callback "('k, 'v) CacheItem"
  | AboutToDeleteItemCb callback "('k, 'v) CacheItem"
  | AboutToExpireCb callback 'k

record ('k, 'v, 's) world =
  tab :: "('k, 'v, 's) CacheTable"
  ext :: 's
  trace :: "('k, 'v) event list"

definition emit :: "('k, 'v) event list \<Rightarrow> ('k, 'v, 's) world \<Rightarrow> ('k, 'v, 's) world" where
  "emit es w = w\<lparr>trace := trace w @ es\<rparr>"

text \<open>
  Whether a table-level callback runs at a moment when the write lock is held, reading a
  trace from a moment when it is held or not (\<open>held\<close>).
\<close>

fun firedUnderLock :: "bool \<Rightarrow> ('k, 'v) event list \<Rightarrow> bool" where
  "firedUnderLock held [] = False"
| "firedUnderLock held (Lock # es) = firedUnderLock True es"
| "firedUnderLock held (Unlock # es) = firedUnderLock False es"
| "firedUnderLock held (AddedItemCb c i # es) = (held \<or> firedUnderLock held es)"
| "firedUnderLock held (AboutToDeleteItemCb c i # es) = (held \<or> firedUnderLock held es)"
| "firedUnderLock held (e # es) = firedUnderLock held es"

fun isCallback :: "('k, 'v) event \<Rightarrow> bool" where
  "isCallback (AddedItemCb c i) = True"
| "isCallback (AboutToDeleteItemCb c i) = True"
| "isCallback (AboutToExpireCb c k) = True"
| "isCallback e = False"

section \<open>The registry\<close>

type_synonym ('k, 'v, 's) registry = "string \<rightharpoonup> ('k, 'v, 's) CacheTable"

definition runJanitor :: "('k, 'v, 's) CacheTable \<Rightarrow> Duration \<Rightarrow> ('k, 'v, 's) CacheTable" where
  "runJanitor c ci = c\<lparr>janitor := Some \<lparr>Interval = ci\<rparr>\<rparr>"

text \<open>
  \<^verbatim>\<open>New\<close> of \<^verbatim>\<open>cache.go\<close>: the lookup under the read lock and the second one under the
  write lock see the same map when one goroutine runs. The fields the struct literal
  does not name have Go's zero values.
\<close>

definition New :: "string \<Rightarrow> Duration \<Rightarrow> ('k, 'v, 's) registry
    \<Rightarrow> ('k, 'v, 's) CacheTable \<times> ('k, 'v, 's) registry" where
  "New table ci cache =
     (case cache table of
        Some t \<Rightarrow> (t, cache)
      | None \<Rightarrow>
          (let t = \<lparr>name = table, items = Map.empty, cleanupInterval = ci,
                    defaultExpiration = 0, enableNullData = False, enableAutoLoad = False,
                    janitor = None, loadData = None, addedItem = [],
                    aboutToDeleteItem = []\<rparr>
           in (t, cache(table \<mapsto> t))))"

definition Cache :: "string \<Rightarrow> ('k, 'v, 's) registry
    \<Rightarrow> ('k, 'v, 's) CacheTable \<times> ('k, 'v, 's) registry" where
  "Cache table cache =
     (case cache table of
        Some t \<Rightarrow> (t, cache)
      | None \<Rightarrow>
          (let t = \<lparr>name = table, items = Map.empty, cleanupInterval = 0,
                    defaultExpiration = 0, enableNullData = False, enableAutoLoad = False,
                    janitor = None, loadData = None, addedItem = [],
                    aboutToDeleteItem = []\<rparr>
           in (t, cache(table \<mapsto> t))))"

section \<open>Configuration and the callback registries of a table\<close>

definition EnableNullData :: "bool \<Rightarrow> ('k, 'v, 's) world \<Rightarrow> ('k, 'v, 's) world" where
  "EnableNullData b w = emit [Unlock] ((emit [Lock] w)\<lparr>tab := (tab w)\<lparr>enableNullData := b\<rparr>\<rparr>)"

definition SetDataLoader :: "('k, 'v, 's) loader option \<Rightarrow> ('k, 'v, 's) world \<Rightarrow> ('k, 'v, 's) world" where
  "SetDataLoader f w =
     emit [Unlock] ((emit [Lock] w)\<lparr>tab := (tab w)\<lparr>enableAutoLoad := True, loadData := f\<rparr>\<rparr>)"

definition RemoveAddedItemCallbacks :: "('k, 'v, 's) world \<Rightarrow> ('k, 'v, 's) world" where
  "RemoveAddedItemCallbacks w = emit [Unlock] ((emit [Lock] w)\<lparr>tab := (tab w)\<lparr>addedItem := []\<rparr>\<rparr>)"

definition AddAddedItemCallback :: "callback \<Rightarrow> ('k, 'v, 's) world \<Rightarrow> ('k, 'v, 's) world" where
  "AddAddedItemCallback f w =
     emit [Unlock] ((emit [Lock] w)\<lparr>tab := (tab w)\<lparr>addedItem := addedItem (tab w) @ [f]\<rparr>\<rparr>)"

definition SetAddedItemCallback :: "callback \<Rightarrow> ('k, 'v, 's) world \<Rightarrow> ('k, 'v, 's) world" where
  "SetAddedItemCallback f w =
     (let w1 = (if length (addedItem (tab w)) > 0 then RemoveAddedItemCallbacks w else w)
      in emit [Unlock]
           ((emit [Lock] w1)\<lparr>tab := (tab w1)\<lparr>addedItem := addedItem (tab w1) @ [f]\<rparr>\<rparr>))"

definition RemoveAboutToDeleteItemCallback :: "('k, 'v, 's) world \<Rightarrow> ('k, 'v, 's) world" where
  "RemoveAboutToDeleteItemCallback w =
     emit [Unlock] ((emit [Lock] w)\<lparr>tab := (tab w)\<lparr>aboutToDeleteItem := []\<rparr>\<rparr>)"

definition AddAboutToDeleteItemCallback :: "callback \<Rightarrow> ('k, 'v, 's) world \<Rightarrow> ('k, 'v, 's) world" where
  "AddAboutToDeleteItemCallback f w =
     emit [Unlock]
       ((emit [Lock] w)\<lparr>tab := (tab w)\<lparr>aboutToDeleteItem := aboutToDeleteItem (tab w) @ [f]\<rparr>\<rparr>)"

definition SetAboutToDeleteItemCallback :: "callback \<Rightarrow> ('k, 'v, 's) world \<Rightarrow> ('k, 'v, 's) world" where
  "SetAboutToDeleteItemCallback f w =
     (let w1 = (if length (aboutToDeleteItem (tab w)) > 0
                then RemoveAboutToDeleteItemCallback w else w)
      in emit [Unlock]
           ((emit [Lock] w1)\<lparr>tab := (tab w1)\<lparr>aboutToDeleteItem :=
               aboutToDeleteItem (tab w1) @ [f]\<rparr>\<rparr>))"

section \<open>Admission, deletion and lookup\<close>

text \<open>
  \<^verbatim>\<open>addInternal\<close>: the caller holds the write lock. The item is stored under its own key
  and every callback of \<^verbatim>\<open>table.addedItem\<close> runs, in slice order; the function does not
  touch the mutex.
\<close>

definition addInternal :: "('k, 'v) CacheItem \<Rightarrow> ('k, 'v, 's) world \<Rightarrow> ('k, 'v, 's) world" where
  "addInternal item w =
     (let w1 = emit [StoreItem (key item) item]
                 (w\<lparr>tab := (tab w)\<lparr>items := (items (tab w))(key item \<mapsto> item)\<rparr>\<rparr>);
          addedItem1 = addedItem (tab w1)
      in emit (map (\<lambda>callback. AddedItemCb callback item) addedItem1) w1)"

definition Set :: "Time \<Rightarrow> 'k \<Rightarrow> Duration \<Rightarrow> 'v option \<Rightarrow> ('k, 'v, 's) world
    \<Rightarrow> ('k, 'v) CacheItem \<times> ('k, 'v, 's) world" where
  "Set now k l d w =
     (let item = NewCacheItem k l d now;
          w1 = emit [Lock] w;
          w2 = addInternal item w1;
          w3 = emit [Unlock] w2
      in (item, w3))"

text \<open>
  \<^verbatim>\<open>deleteInternal\<close>: the caller holds the write lock and gets it back held. An absent
  key returns the error at once. Otherwise the lock is released, the table's
  about-to-delete callbacks run on the entry, then the entry's about-to-expire callbacks
  on the key, the lock is taken again and the key is deleted from the map.
\<close>

definition deleteInternal :: "'k \<Rightarrow> ('k, 'v, 's) world
    \<Rightarrow> (error + ('k, 'v) CacheItem) \<times> ('k, 'v, 's) world" where
  "deleteInternal k w =
     (case items (tab w) k of
        None \<Rightarrow> (Inl ErrKeyNotFound, w)
      | Some r \<Rightarrow>
          (let aboutToDeleteItem1 = aboutToDeleteItem (tab w);
               w1 = emit [Unlock] w;
               w2 = emit (map (\<lambda>callback. AboutToDeleteItemCb callback r) aboutToDeleteItem1) w1;
               w3 = emit (map (\<lambda>callback. AboutToExpireCb callback k) (aboutToExpire r)) w2;
               w4 = emit [Lock] w3;
               w5 = emit [DeleteItem k]
                      (w4\<lparr>tab := (tab w4)\<lparr>items := (items (tab w4))(k := None)\<rparr>\<rparr>)
           in (Inr r, w5)))"

definition Delete :: "'k \<Rightarrow> ('k, 'v, 's) world
    \<Rightarrow> (error + ('k, 'v) CacheItem) \<times> ('k, 'v, 's) world" where
  "Delete k w =
     (let (res, w1) = deleteInternal k (emit [Lock] w)
      in (res, emit [Unlock] w1))"

text \<open>
  The read-only operations take the read lock and release it when they return; they
  are functions of the table.
\<close>

definition Exists :: "'k \<Rightarrow> ('k, 'v, 's) CacheTable \<Rightarrow> bool" where
  "Exists k t = (case items t k of Some r \<Rightarrow> True | None \<Rightarrow> False)"

definition Add :: "Time \<Rightarrow> 'k \<Rightarrow> Duration \<Rightarrow> 'v option \<Rightarrow> ('k, 'v, 's) world
    \<Rightarrow> bool \<times> ('k, 'v, 's) world" where
  "Add now k l d w =
     (let w1 = emit [Lock] w
      in case items (tab w1) k of
           Some r \<Rightarrow> (False, emit [Unlock] w1)
         | None \<Rightarrow> (True, emit [Unlock] (addInternal (NewCacheItem k l d now) w1)))"

definition Flush :: "('k, 'v, 's) world \<Rightarrow> ('k, 'v, 's) world" where
  "Flush w =
     emit [Unlock]
       ((emit [Lock] w)\<lparr>tab := (tab w)\<lparr>items := Map.empty, cleanupInterval := 0\<rparr>\<rparr>)"

text \<open>
  Modelled from the spec: the package \<^verbatim>\<open>singleflight\<close> is not among the sources. With
  no flight under way for the key, \<^verbatim>\<open>Do(key, fn)\<close> runs \<open>fn\<close> once and returns what it
  returns; with one goroutine no flight is ever under way.
\<close>

definition Do :: "'k \<Rightarrow> (('k, 'v, 's) world \<Rightarrow> 'r \<times> ('k, 'v, 's) world)
    \<Rightarrow> ('k, 'v, 's) world \<Rightarrow> 'r \<times> ('k, 'v, 's) world" where
  "Do k fn w = fn w"

text \<open>
  \<^verbatim>\<open>Get\<close>: a hit keeps the entry alive and returns it. A miss with no loader is
  \<^verbatim>\<open>ErrKeyNotFound\<close>. A miss with a loader calls it inside the single-flight gate: its
  error is returned unless \<^verbatim>\<open>enableNullData\<close> is set; otherwise an item with the value
  and lifespan the loader returned is admitted under the write lock and returned.
  \<open>now\<close> is the one clock reading of the call (in \<^verbatim>\<open>KeepAlive\<close> or in \<^verbatim>\<open>NewCacheItem\<close>).
\<close>

definition Get :: "Time \<Rightarrow> 'k \<Rightarrow> ('k, 'v, 's) world
    \<Rightarrow> (error + ('k, 'v) CacheItem) \<times> ('k, 'v, 's) world" where
  "Get now k w =
     (let w1 = emit [RLock, RUnlock] w
      in case items (tab w) k of
           Some r \<Rightarrow>
             (let r1 = KeepAlive now r
              in (Inr r1, w1\<lparr>tab := (tab w1)\<lparr>items := (items (tab w1))(k \<mapsto> r1)\<rparr>\<rparr>))
         | None \<Rightarrow>
             (case loadData (tab w) of
                Some loadData1 \<Rightarrow>
                  Do k (\<lambda>w2.
                    (case loadData1 k (ext w2) of
                       ((temp, tempLifeSpan, err1), s) \<Rightarrow>
                         (let w3 = emit [LoadData k] (w2\<lparr>ext := s\<rparr>)
                          in if err1 \<noteq> None \<and> \<not> enableNullData (tab w3)
                             then (Inl (the err1), w3)
                             else
                               (let item = NewCacheItem k tempLifeSpan temp now;
                                    w4 = emit [Lock] w3;
                                    w5 = addInternal item w4;
                                    w6 = emit [Unlock] w5
                                in (Inr item, w6))))) w1
              | None \<Rightarrow> (Inl ErrKeyNotFound, w1)))"

section \<open>The expiration pass\<close>

text \<open>
  The body of the loop of \<^verbatim>\<open>ExpirationCheck\<close> for one key that \<^verbatim>\<open>range\<close> produces. A
  key that is no longer in the map is not produced. \<open>now\<close> is the clock reading taken
  before the loop; \<open>tnew k\<close> is the reading \<^verbatim>\<open>NewCacheItem\<close> takes when the entry of \<open>k\<close>
  is refreshed. \<^verbatim>\<open>lifeSpan*2/3\<close> is \<^verbatim>\<open>(lifeSpan*2)/3\<close> on \<^verbatim>\<open>int64\<close>. The flag
  \<^verbatim>\<open>enableAutoLoad\<close> guards the call of \<^verbatim>\<open>table.loadData\<close>, which panics when the
  function is nil.
\<close>

definition expired :: "Time \<Rightarrow> ('k, 'v) CacheItem \<Rightarrow> bool" where
  "expired now item = (Sub now (createdOn item) \<ge> lifeSpan item)"

definition recentlyAccessed :: "Time \<Rightarrow> ('k, 'v) CacheItem \<Rightarrow> bool" where
  "recentlyAccessed now item =
     (Sub now (accessedOn item) \<le> wrap64 (lifeSpan item * 2) sdiv 3)"

definition expireEntry :: "Time \<Rightarrow> ('k \<Rightarrow> Time) \<Rightarrow> 'k \<Rightarrow> ('k, 'v, 's) world
    \<Rightarrow> panic + ('k, 'v, 's) world" where
  "expireEntry now tnew k w =
     (case items (tab w) k of
        None \<Rightarrow> Inr w
      | Some item \<Rightarrow>
          if lifeSpan item = 0 then Inr w
          else if expired now item then
            (if enableAutoLoad (tab w) \<and> recentlyAccessed now item then
               (case loadData (tab w) of
                  None \<Rightarrow> Inl NilFuncCall
                | Some loadData1 \<Rightarrow>
                    (case loadData1 k (ext w) of
                       ((temp, tempLifeSpan, err1), s) \<Rightarrow>
                         (let w1 = emit [LoadData k] (w\<lparr>ext := s\<rparr>)
                          in if err1 = None
                             then Inr (addInternal (NewCacheItem k tempLifeSpan temp (tnew k)) w1)
                             else Inr (snd (deleteInternal k w1)))))
             else Inr (snd (deleteInternal k w)))
          else Inr w)"

text \<open>
  The loop: \<open>ks\<close> is the order in which \<^verbatim>\<open>range table.items\<close> produces the keys, which Go
  leaves open. A panic ends the pass.
\<close>

fun expirationLoop :: "Time \<Rightarrow> ('k \<Rightarrow> Time) \<Rightarrow> 'k list \<Rightarrow> ('k, 'v, 's) world
    \<Rightarrow> panic + ('k, 'v, 's) world" where
  "expirationLoop now tnew [] w = Inr w"
| "expirationLoop now tnew (k # ks) w =
     (case expireEntry now tnew k w of
        Inl p \<Rightarrow> Inl p
      | Inr w1 \<Rightarrow> expirationLoop now tnew ks w1)"

definition ExpirationCheck :: "Time \<Rightarrow> ('k \<Rightarrow> Time) \<Rightarrow> 'k list \<Rightarrow> ('k, 'v, 's) world
    \<Rightarrow> panic + ('k, 'v, 's) world" where
  "ExpirationCheck now tnew ks w =
     (case expirationLoop now tnew ks (emit [Lock] w) of
        Inl p \<Rightarrow> Inl p
      | Inr w1 \<Rightarrow> Inr (emit [Unlock] w1))"

text \<open>
  An order in which \<^verbatim>\<open>range\<close> can produce the keys of a map: every key once.
\<close>

definition rangeOrder :: "'k list \<Rightarrow> ('k \<rightharpoonup> 'a) \<Rightarrow> bool" where
  "rangeOrder ks m = (distinct ks \<and> set ks = dom m)"

text \<open>
  The world in which the pass reaches key \<open>k\<close>: the one the loop leaves after the keys
  before \<open>k\<close>. The loader is called for \<open>k\<close> on the state \<open>ext\<close> of that world.
\<close>

definition reached :: "Time \<Rightarrow> ('k \<Rightarrow> Time) \<Rightarrow> 'k list \<Rightarrow> 'k \<Rightarrow> ('k, 'v, 's) world
    \<Rightarrow> ('k, 'v, 's) world" where
  "reached now tnew ks k w =
     (case expirationLoop now tnew (takeWhile (\<lambda>x. x \<noteq> k) ks) (emit [Lock] w) of
        Inl p \<Rightarrow> w
      | Inr w1 \<Rightarrow> w1)"

section \<open>The most accessed items\<close>

text \<open>
  \<^verbatim>\<open>CacheItemPair\<close> is a key with an access count; \<^verbatim>\<open>Less\<close> of \<^verbatim>\<open>CacheItemPairList\<close>
  puts the larger count first.
\<close>

type_synonym 'k CacheItemPair = "'k \<times> int"

definition Less :: "'k CacheItemPair \<Rightarrow> 'k CacheItemPair \<Rightarrow> bool" where
  "Less a b = (snd a > snd b)"

text \<open>
  What \<^verbatim>\<open>sort.Sort\<close> of the standard library promises about its result: the same
  elements, and no later element less than an earlier one. It is not stable.
\<close>

definition sortsByLess :: "('k CacheItemPair list \<Rightarrow> 'k CacheItemPair list) \<Rightarrow> bool" where
  "sortsByLess srt =
     (\<forall>p. mset (srt p) = mset p \<and> sorted_wrt (\<lambda>a b. \<not> Less b a) (srt p))"

text \<open>
  The second loop of \<^verbatim>\<open>MostAccessed\<close>: it stops when the counter \<open>c\<close> reaches the argument \<open>cnt\<close>,
  and the counter goes up for every pair, found or not.
\<close>

fun collect :: "int \<Rightarrow> int \<Rightarrow> 'k CacheItemPair list \<Rightarrow> ('k \<rightharpoonup> ('k, 'v) CacheItem)
    \<Rightarrow> ('k, 'v) CacheItem list" where
  "collect c cnt [] m = []"
| "collect c cnt (v # vs) m =
     (if c \<ge> cnt then []
      else (case m (fst v) of
              Some item \<Rightarrow> item # collect (c + 1) cnt vs m
            | None \<Rightarrow> collect (c + 1) cnt vs m))"

text \<open>
  \<^verbatim>\<open>MostAccessed\<close>: \<open>srt\<close> is \<^verbatim>\<open>sort.Sort\<close>, \<open>ks\<close> the order in which \<^verbatim>\<open>range\<close> produces
  the keys (a key of \<open>ks\<close> that is not in the map yields no pair).
\<close>

definition pairsOf :: "'k list \<Rightarrow> ('k \<rightharpoonup> ('k, 'v) CacheItem) \<Rightarrow> 'k CacheItemPair list" where
  "pairsOf ks m =
     concat (map (\<lambda>k. case m k of Some v \<Rightarrow> [(k, accessCount v)] | None \<Rightarrow> []) ks)"

definition MostAccessed :: "('k CacheItemPair list \<Rightarrow> 'k CacheItemPair list) \<Rightarrow> 'k list \<Rightarrow> int
    \<Rightarrow> ('k, 'v, 's) CacheTable \<Rightarrow> ('k, 'v) CacheItem list" where
  "MostAccessed srt ks cnt t = collect 0 cnt (srt (pairsOf ks (items t))) (items t)"

text \<open>A sort that meets the promise, to run the function on concrete tables.\<close>

definition sortPairs :: "'k CacheItemPair list \<Rightarrow> 'k CacheItemPair list" where
  "sortPairs p = rev (sort_key snd p)"

section \<open>Reading traces, and worlds to run the operations on\<close>

text \<open>The events a call appends: the trace of the world after it, without the trace before.\<close>

definition emitted :: "('k, 'v, 's) world \<Rightarrow> ('k, 'v, 's) world \<Rightarrow> ('k, 'v) event list" where
  "emitted w w1 = drop (length (trace w)) (trace w1)"

fun isDeleteOrExpireCb :: "('k, 'v) event \<Rightarrow> bool" where
  "isDeleteOrExpireCb (AboutToDeleteItemCb c i) = True"
| "isDeleteOrExpireCb (AboutToExpireCb c k) = True"
| "isDeleteOrExpireCb e = False"

text \<open>A table fresh from \<^verbatim>\<open>New\<close> on an empty registry, with an empty trace.\<close>

definition emptyWorld :: "string \<Rightarrow> Duration \<Rightarrow> 's \<Rightarrow> ('k, 'v, 's) world" where
  "emptyWorld table ci s = \<lparr>tab = fst (New table ci Map.empty), ext = s, trace = []\<rparr>"

text \<open>
  A table with one entry under \<open>''k''\<close> that has two about-to-expire observers, two
  added-item callbacks and two about-to-delete callbacks.
\<close>

definition exampleWorld :: "(string, string, unit) world" where
  "exampleWorld =
     \<lparr>tab = (fst (New ''t'' 0 Map.empty))
              \<lparr>items := [''k'' \<mapsto> (NewCacheItem ''k'' 0 (Some ''v'') 5)\<lparr>aboutToExpire := [3, 4]\<rparr>],
               addedItem := [8, 9],
               aboutToDeleteItem := [1, 2]\<rparr>,
      ext = (), trace = []\<rparr>"

text \<open>
  The loader of \<^verbatim>\<open>TestDataLoader\<close>: an error for the key \<open>''nil''\<close>, otherwise the number
  of the call with a lifespan of 20ms. \<open>staleLoader\<close> returns a value together with
  its error.
\<close>

definition testLoader :: "(string, nat, nat) loader" where
  "testLoader k n =
     (if k = ''nil'' then ((None, 0, Some (ErrOther ''not found'')), n)
      else ((Some (n + 1), 20000000, None), n + 1))"

definition staleLoader :: "(string, nat, nat) loader" where
  "staleLoader k n = ((Some 1, 0, Some (ErrOther ''not found'')), n)"

definition loaderWorld :: "bool \<Rightarrow> (string, nat, nat) loader \<Rightarrow> (string, nat, nat) world" where
  "loaderWorld b f =
     SetDataLoader (Some f) (EnableNullData b (emptyWorld ''testDataLoader'' 1000000 0))"

section \<open>Reading the expiration pass\<close>

text \<open>
  Two tables agree on everything the expiration pass reads besides the map: the loader,
  its flag and the two callback registries.
\<close>

definition sameSettings :: "('k, 'v, 's) CacheTable \<Rightarrow> ('k, 'v, 's) CacheTable \<Rightarrow> bool" where
  "sameSettings t t1 =
     (enableAutoLoad t1 = enableAutoLoad t \<and> loadData t1 = loadData t
      \<and> addedItem t1 = addedItem t \<and> aboutToDeleteItem t1 = aboutToDeleteItem t)"

text \<open>
  What the loader returns when the pass calls it for \<open>k\<close>: it is called on the loader state
  of the world in which the pass reaches \<open>k\<close>. \<open>None\<close> when the table has no loader.
\<close>

definition loaderResult :: "Time \<Rightarrow> ('k \<Rightarrow> Time) \<Rightarrow> 'k list \<Rightarrow> 'k \<Rightarrow> ('k, 'v, 's) world
    \<Rightarrow> ('v option \<times> Duration \<times> error option) option" where
  "loaderResult now tnew ks k w =
     (case loadData (tab w) of
        None \<Rightarrow> None
      | Some f \<Rightarrow> Some (fst (f k (ext (reached now tnew ks k w)))))"

text \<open>
  Worlds for the expiration pass. \<open>touched k\<close> is an entry with a lifespan of 20, created
  at 0 and last accessed at 25. In \<open>sweepWorld\<close>, read at the instant 30, \<open>a\<close> never
  expires, \<open>b\<close> has not expired, \<open>d\<close> expired long after its last access, and \<open>c\<close>, \<open>e\<close>
  and \<open>nil\<close> expired shortly after an access; the loader fails for \<open>nil\<close>.
  \<open>negativeWorld\<close> holds one entry with a negative lifespan.
\<close>

definition touched :: "string \<Rightarrow> (string, nat) CacheItem" where
  "touched k = (NewCacheItem k 20 (Some 0) 0)\<lparr>accessedOn := 25\<rparr>"

definition sweepWorld :: "(string, nat, nat) world" where
  "sweepWorld =
     (loaderWorld True testLoader)
       \<lparr>tab := (tab (loaderWorld True testLoader))
          \<lparr>items := [''a'' \<mapsto> NewCacheItem ''a'' 0 (Some 0) 0,
                     ''b'' \<mapsto> NewCacheItem ''b'' 40 (Some 0) 0,
                     ''c'' \<mapsto> touched ''c'',
                     ''d'' \<mapsto> NewCacheItem ''d'' 20 (Some 0) 0,
                     ''e'' \<mapsto> touched ''e'',
                     ''nil'' \<mapsto> touched ''nil''],
            addedItem := [8, 9]\<rparr>\<rparr>"

definition sweepOrder :: "string list" where
  "sweepOrder = [''e'', ''c'', ''a'', ''b'', ''d'', ''nil'']"

definition negativeWorld :: "(string, string, unit) world" where
  "negativeWorld =
     (emptyWorld ''t'' 1000000 ())
       \<lparr>tab := (tab (emptyWorld ''t'' 1000000 ()))
          \<lparr>items := [''k'' \<mapsto> NewCacheItem ''k'' (- 1) (Some ''v'') 0]\<rparr>\<rparr>"

text \<open>
  The table of \<^verbatim>\<open>TestAccessCount\<close> once its two nested iterations are done: keys 0 to 99, the entry of key
  \<open>i\<close> accessed \<open>i\<close> times.
\<close>

definition accessTable :: "(nat, string, unit) CacheTable" where
  "accessTable =
     (fst (New ''testAccessCount'' 1000000000 Map.empty))
       \<lparr>items := (\<lambda>i. if i < 100
                       then Some ((NewCacheItem i 10000000000 (Some ''testvalue'') 0)
                                    \<lparr>accessCount := int i\<rparr>)
                       else None)\<rparr>"

section \<open>Facts about the operations\<close>

lemma exampleWorld_simps:
  "items (tab exampleWorld) = [''k'' \<mapsto> (NewCacheItem ''k'' 0 (Some ''v'') 5)\<lparr>aboutToExpire := [3, 4]\<rparr>]"
  "addedItem (tab exampleWorld) = [8, 9]"
  "aboutToDeleteItem (tab exampleWorld) = [1, 2]"
  "trace exampleWorld = []"
  "loadData (tab exampleWorld) = None"
  by (simp_all add: exampleWorld_def New_def Let_def)

lemma loaderWorld_simps:
  "items (tab (loaderWorld b f)) = Map.empty"
  "loadData (tab (loaderWorld b f)) = Some f"
  "enableNullData (tab (loaderWorld b f)) = b"
  "enableAutoLoad (tab (loaderWorld b f)) = True"
  "addedItem (tab (loaderWorld b f)) = []"
  "aboutToDeleteItem (tab (loaderWorld b f)) = []"
  "ext (loaderWorld b f) = 0"
  by (simp_all add: loaderWorld_def SetDataLoader_def EnableNullData_def emptyWorld_def
      New_def Let_def emit_def)

lemma filter_isCallback_added [simp]:
  "filter isCallback (map (\<lambda>c. AddedItemCb c i) cs) = map (\<lambda>c. AddedItemCb c i) cs"
  by (induction cs) auto

lemma filter_isCallback_del [simp]:
  "filter isCallback (map (\<lambda>c. AboutToDeleteItemCb c i) cs) = map (\<lambda>c. AboutToDeleteItemCb c i) cs"
  by (induction cs) auto

lemma filter_isCallback_exp [simp]:
  "filter isCallback (map (\<lambda>c. AboutToExpireCb c k) cs) = map (\<lambda>c. AboutToExpireCb c k) cs"
  by (induction cs) auto

lemma filter_del_added [simp]:
  "filter isDeleteOrExpireCb (map (\<lambda>c. AddedItemCb c i) cs) = []"
  by (induction cs) auto

lemma Set_trace:
  "trace (snd (Set now k l d w)) =
     trace w @ [Lock, StoreItem k (NewCacheItem k l d now)]
       @ map (\<lambda>c. AddedItemCb c (NewCacheItem k l d now)) (addedItem (tab w)) @ [Unlock]"
  by (simp add: Set_def addInternal_def Let_def emit_def NewCacheItem_def)

lemma Set_tab:
  "tab (snd (Set now k l d w)) = (tab w)\<lparr>items := (items (tab w))(k \<mapsto> NewCacheItem k l d now)\<rparr>"
  by (simp add: Set_def addInternal_def Let_def emit_def NewCacheItem_def)

lemma Delete_absent:
  "items (tab w) k = None \<Longrightarrow> Delete k w = (Inl ErrKeyNotFound, emit [Lock, Unlock] w)"
  by (simp add: Delete_def deleteInternal_def emit_def)

lemma Delete_present:
  "items (tab w) k = Some r \<Longrightarrow>
   Delete k w = (Inr r,
     (emit ([Lock, Unlock] @ map (\<lambda>c. AboutToDeleteItemCb c r) (aboutToDeleteItem (tab w))
        @ map (\<lambda>c. AboutToExpireCb c k) (aboutToExpire r) @ [Lock, DeleteItem k, Unlock]) w)
     \<lparr>tab := (tab w)\<lparr>items := (items (tab w))(k := None)\<rparr>\<rparr>)"
  by (simp add: Delete_def deleteInternal_def emit_def Let_def)

lemma Get_miss_loader:
  assumes "items (tab w) k = None" "loadData (tab w) = Some f"
    and "f k (ext w) = ((v, span, err), s)"
  shows "Get now k w =
     (if err \<noteq> None \<and> \<not> enableNullData (tab w)
      then (Inl (the err), emit [RLock, RUnlock, LoadData k] (w\<lparr>ext := s\<rparr>))
      else (Inr (NewCacheItem k span v now),
            emit ([RLock, RUnlock, LoadData k, Lock, StoreItem k (NewCacheItem k span v now)]
                   @ map (\<lambda>c. AddedItemCb c (NewCacheItem k span v now)) (addedItem (tab w))
                   @ [Unlock])
              (w\<lparr>ext := s, tab := (tab w)\<lparr>items := (items (tab w))(k \<mapsto> NewCacheItem k span v now)\<rparr>\<rparr>)))"
  using assms
  by (simp add: Get_def Do_def Let_def emit_def addInternal_def NewCacheItem_def)

section \<open>Callbacks and the write lock\<close>

lemma firedUnderLock_added:
  "firedUnderLock True (map (\<lambda>c. AddedItemCb c i) cs @ es) = (cs \<noteq> [] \<or> firedUnderLock True es)"
  by (induction cs) auto

text \<open>
  C1 says that \<^verbatim>\<open>Set\<close> runs the added-item callbacks only after it has released the
  table's write lock. The code does otherwise: on a fresh table with one callback
  registered by \<^verbatim>\<open>AddAddedItemCallback\<close>, \<^verbatim>\<open>Set\<close> takes the lock, stores the item, runs
  the callback and only then unlocks, so the callback runs while the lock is held. On
  any table, \<^verbatim>\<open>Set\<close> runs a callback under the lock as soon as one is registered.
\<close>

theorem Set_runs_added_callback_under_lock:
  "trace (snd (Set 5 ''k'' 0 (Some ''v'') (AddAddedItemCallback 7 (emptyWorld ''t'' 0 ())))) =
     [Lock, Unlock, Lock, StoreItem ''k'' (NewCacheItem ''k'' 0 (Some ''v'') 5),
      AddedItemCb 7 (NewCacheItem ''k'' 0 (Some ''v'') 5), Unlock]
   \<and> firedUnderLock False
        (trace (snd (Set 5 ''k'' 0 (Some ''v'') (AddAddedItemCallback 7 (emptyWorld ''t'' 0 ())))))
   \<and> firedUnderLock False (emitted w (snd (Set now k l d w))) = (addedItem (tab w) \<noteq> [])"
proof -
  have "firedUnderLock False (emitted w (snd (Set now k l d w))) = (addedItem (tab w) \<noteq> [])"
    by (simp add: emitted_def Set_trace firedUnderLock_added)
  then show ?thesis
    by (simp add: Set_trace AddAddedItemCallback_def emit_def emptyWorld_def New_def Let_def)
qed

section \<open>Lookup through a failing loader\<close>

text \<open>
  C3, as the code has it: \<^verbatim>\<open>Get\<close> of a missing key, with a loader that returns an error
  \<open>e\<close> next to a value \<open>v\<close> and a lifespan \<open>span\<close>. With \<^verbatim>\<open>enableNullData\<close> off, \<^verbatim>\<open>Get\<close>
  returns \<open>e\<close> and the table is as before. With it on, \<^verbatim>\<open>Get\<close> returns, with no error,
  a new entry that carries \<open>v\<close> (null only when the loader returned null) and \<open>span\<close>,
  the entry is in the table, and \<^verbatim>\<open>Exists\<close> is true afterwards.
\<close>

theorem Get_loader_error:
  assumes "items (tab w) k = None" and "loadData (tab w) = Some f"
    and "f k (ext w) = ((v, span, Some e), s)"
  shows "(\<not> enableNullData (tab w) \<longrightarrow>
            fst (Get now k w) = Inl e \<and> tab (snd (Get now k w)) = tab w)
       \<and> (enableNullData (tab w) \<longrightarrow>
            fst (Get now k w) = Inr (NewCacheItem k span v now)
            \<and> data (NewCacheItem k span v now) = v
            \<and> lifeSpan (NewCacheItem k span v now :: ('a, 'b) CacheItem) = span
            \<and> items (tab (snd (Get now k w))) = (items (tab w))(k \<mapsto> NewCacheItem k span v now)
            \<and> Exists k (tab (snd (Get now k w))))"
  by (simp add: Get_miss_loader [OF assms] emit_def Exists_def NewCacheItem_def)

theorem Get_loader_error_witness:
  "items (tab (loaderWorld False testLoader)) ''nil'' = None
   \<and> loadData (tab (loaderWorld False testLoader)) = Some testLoader
   \<and> testLoader ''nil'' (ext (loaderWorld False testLoader)) = ((None, 0, Some (ErrOther ''not found'')), 0)
   \<and> fst (Get 5 ''nil'' (loaderWorld False testLoader)) = Inl (ErrOther ''not found'')
   \<and> tab (snd (Get 5 ''nil'' (loaderWorld False testLoader))) = tab (loaderWorld False testLoader)
   \<and> fst (Get 5 ''nil'' (loaderWorld True testLoader)) = Inr (NewCacheItem ''nil'' 0 None 5)
   \<and> Exists ''nil'' (tab (snd (Get 5 ''nil'' (loaderWorld True testLoader))))"
  using Get_loader_error [of "loaderWorld False testLoader" "''nil''" testLoader None 0 "ErrOther ''not found''" 0 5]
    Get_loader_error [of "loaderWorld True testLoader" "''nil''" testLoader None 0 "ErrOther ''not found''" 0 5]
  by (simp add: loaderWorld_simps testLoader_def)

text \<open>
  C3 as stated fails: with \<^verbatim>\<open>enableNullData\<close> on and a loader that returns the value 1
  together with its error, the entry \<^verbatim>\<open>Get\<close> returns and admits has the value 1, not
  null.
\<close>

theorem Get_loader_error_value_not_null:
  "items (tab (loaderWorld True staleLoader)) ''k'' = None
   \<and> loadData (tab (loaderWorld True staleLoader)) = Some staleLoader
   \<and> enableNullData (tab (loaderWorld True staleLoader))
   \<and> fst (staleLoader ''k'' (ext (loaderWorld True staleLoader))) = (Some 1, 0, Some (ErrOther ''not found''))
   \<and> map_sum id data (fst (Get 5 ''k'' (loaderWorld True staleLoader))) = Inr (Some 1)
   \<and> map_option data (items (tab (snd (Get 5 ''k'' (loaderWorld True staleLoader)))) ''k'') = Some (Some 1)"
  using Get_miss_loader [of "loaderWorld True staleLoader" "''k''" staleLoader "Some 1" 0
      "Some (ErrOther ''not found'')" 0 5]
  by (simp add: loaderWorld_simps staleLoader_def emit_def NewCacheItem_def)

section \<open>The registry constructor and the janitor\<close>

text \<open>
  C4 says that \<^verbatim>\<open>New\<close> with a positive cleanup interval yields a table whose janitor is
  present and started. The code does otherwise: \<^verbatim>\<open>New(''testCacheE'', 1ms)\<close> on an empty
  registry returns a table that keeps the interval and has no janitor; only a call of
  \<^verbatim>\<open>runJanitor\<close>, which \<^verbatim>\<open>New\<close> does not make, would give it one.
\<close>

theorem New_starts_no_janitor:
  "janitor (fst (New ''testCacheE'' 1000000 Map.empty)) = None
   \<and> cleanupInterval (fst (New ''testCacheE'' 1000000 Map.empty)) = 1000000
   \<and> janitor (runJanitor (fst (New ''testCacheE'' 1000000 Map.empty)) 1000000)
       = Some \<lparr>Interval = 1000000\<rparr>"
  by (simp add: New_def runJanitor_def Let_def)

section \<open>Deletion\<close>

text \<open>
  C5: \<^verbatim>\<open>Delete\<close> of an absent key fails with \<^verbatim>\<open>ErrKeyNotFound\<close> and leaves the table as it
  was. On a present key it releases the lock, runs the table's about-to-delete callbacks
  on the entry in registration order, then the entry's about-to-expire callbacks on the
  key in registration order, and only after them takes the lock again and deletes the
  key from the map.
\<close>

theorem Delete_absent_or_observed:
  "(items (tab w) k = None \<longrightarrow>
      fst (Delete k w) = Inl ErrKeyNotFound \<and> tab (snd (Delete k w)) = tab w
      \<and> ext (snd (Delete k w)) = ext w)
   \<and> (\<forall>r. items (tab w) k = Some r \<longrightarrow>
        trace (snd (Delete k w)) =
          trace w @ [Lock, Unlock]
            @ map (\<lambda>c. AboutToDeleteItemCb c r) (aboutToDeleteItem (tab w))
            @ map (\<lambda>c. AboutToExpireCb c k) (aboutToExpire r)
            @ [Lock, DeleteItem k, Unlock]
        \<and> items (tab (snd (Delete k w))) = (items (tab w))(k := None))"
  by (simp add: Delete_absent Delete_present emit_def)

theorem Delete_absent_or_observed_witness:
  "items (tab exampleWorld) ''z'' = None
   \<and> fst (Delete ''z'' exampleWorld) = Inl ErrKeyNotFound
   \<and> tab (snd (Delete ''z'' exampleWorld)) = tab exampleWorld
   \<and> items (tab exampleWorld) ''k'' = Some ((NewCacheItem ''k'' 0 (Some ''v'') 5)\<lparr>aboutToExpire := [3, 4]\<rparr>)
   \<and> trace (snd (Delete ''k'' exampleWorld)) =
       [Lock, Unlock,
        AboutToDeleteItemCb 1 ((NewCacheItem ''k'' 0 (Some ''v'') 5)\<lparr>aboutToExpire := [3, 4]\<rparr>),
        AboutToDeleteItemCb 2 ((NewCacheItem ''k'' 0 (Some ''v'') 5)\<lparr>aboutToExpire := [3, 4]\<rparr>),
        AboutToExpireCb 3 ''k'', AboutToExpireCb 4 ''k'',
        Lock, DeleteItem ''k'', Unlock]
   \<and> items (tab (snd (Delete ''k'' exampleWorld))) ''k'' = None"
  using Delete_absent_or_observed [of exampleWorld "''z''"]
        Delete_absent_or_observed [of exampleWorld "''k''"]
  by (simp add: exampleWorld_simps NewCacheItem_def)

text \<open>
  C10: \<^verbatim>\<open>Delete\<close> of a present key returns the entry that was stored under the key, with
  no error, and the key is gone from the table; the caller holds the entry and reads its
  fields.
\<close>

theorem Delete_returns_removed:
  "items (tab w) k = Some r \<Longrightarrow>
     fst (Delete k w) = Inr r \<and> items (tab (snd (Delete k w))) k = None"
  by (simp add: Delete_present emit_def)

theorem Delete_returns_removed_witness:
  "items (tab exampleWorld) ''k'' = Some ((NewCacheItem ''k'' 0 (Some ''v'') 5)\<lparr>aboutToExpire := [3, 4]\<rparr>)
   \<and> fst (Delete ''k'' exampleWorld) = Inr ((NewCacheItem ''k'' 0 (Some ''v'') 5)\<lparr>aboutToExpire := [3, 4]\<rparr>)
   \<and> map_sum id data (fst (Delete ''k'' exampleWorld)) = Inr (Some ''v'')
   \<and> items (tab (snd (Delete ''k'' exampleWorld))) ''k'' = None"
  using Delete_returns_removed [of exampleWorld "''k''"]
  by (simp add: exampleWorld_simps NewCacheItem_def)

section \<open>The callback registries\<close>

text \<open>
  C6: after \<^verbatim>\<open>Set...Callback(f)\<close> the registry holds \<open>f\<close> alone, whatever it held before;
  \<^verbatim>\<open>Add...Callback(f)\<close> appends \<open>f\<close> to what it held; and the callbacks that \<^verbatim>\<open>Set\<close> and
  \<^verbatim>\<open>Delete\<close> run are the registered ones in registration order. This holds for the
  table's added-item and about-to-delete registries and for the entry's about-to-expire
  registry.
\<close>

theorem callback_registries:
  "addedItem (tab (SetAddedItemCallback f w)) = [f]
   \<and> addedItem (tab (AddAddedItemCallback f w)) = addedItem (tab w) @ [f]
   \<and> aboutToDeleteItem (tab (SetAboutToDeleteItemCallback f w)) = [f]
   \<and> aboutToDeleteItem (tab (AddAboutToDeleteItemCallback f w)) = aboutToDeleteItem (tab w) @ [f]
   \<and> aboutToExpire (SetAboutToExpireCallback f item) = [f]
   \<and> aboutToExpire (AddAboutToExpireCallback f item) = aboutToExpire item @ [f]
   \<and> filter isCallback (emitted w (snd (Set now k l d w))) =
        map (\<lambda>c. AddedItemCb c (NewCacheItem k l d now)) (addedItem (tab w))
   \<and> (\<forall>r. items (tab w) k = Some r \<longrightarrow>
        filter isCallback (emitted w (snd (Delete k w))) =
          map (\<lambda>c. AboutToDeleteItemCb c r) (aboutToDeleteItem (tab w))
            @ map (\<lambda>c. AboutToExpireCb c k) (aboutToExpire r))"
proof -
  have 1: "addedItem (tab (SetAddedItemCallback f w)) = [f]"
    by (simp add: SetAddedItemCallback_def RemoveAddedItemCallbacks_def emit_def Let_def)
  have 2: "addedItem (tab (AddAddedItemCallback f w)) = addedItem (tab w) @ [f]"
    by (simp add: AddAddedItemCallback_def emit_def)
  have 3: "aboutToDeleteItem (tab (SetAboutToDeleteItemCallback f w)) = [f]"
    by (simp add: SetAboutToDeleteItemCallback_def RemoveAboutToDeleteItemCallback_def
        emit_def Let_def)
  have 4: "aboutToDeleteItem (tab (AddAboutToDeleteItemCallback f w)) =
             aboutToDeleteItem (tab w) @ [f]"
    by (simp add: AddAboutToDeleteItemCallback_def emit_def)
  have 5: "aboutToExpire (SetAboutToExpireCallback f item) = [f]"
    by (simp add: SetAboutToExpireCallback_def RemoveAboutToExpireCallback_def Let_def)
  have 6: "aboutToExpire (AddAboutToExpireCallback f item) = aboutToExpire item @ [f]"
    by (simp add: AddAboutToExpireCallback_def)
  have 7: "filter isCallback (emitted w (snd (Set now k l d w))) =
        map (\<lambda>c. AddedItemCb c (NewCacheItem k l d now)) (addedItem (tab w))"
    by (simp add: emitted_def Set_trace)
  have 8: "filter isCallback (emitted w (snd (Delete k w))) =
          map (\<lambda>c. AboutToDeleteItemCb c r) (aboutToDeleteItem (tab w))
            @ map (\<lambda>c. AboutToExpireCb c k) (aboutToExpire r)"
    if "items (tab w) k = Some r" for r
    using that by (simp add: emitted_def Delete_present emit_def)
  from 1 2 3 4 5 6 7 8 show ?thesis by blast
qed

theorem callback_registries_witness:
  "addedItem (tab (SetAddedItemCallback 7 exampleWorld)) = [7]
   \<and> addedItem (tab (AddAddedItemCallback 7 exampleWorld)) = [8, 9, 7]
   \<and> aboutToDeleteItem (tab (SetAboutToDeleteItemCallback 7 exampleWorld)) = [7]
   \<and> aboutToDeleteItem (tab (AddAboutToDeleteItemCallback 7 exampleWorld)) = [1, 2, 7]
   \<and> aboutToExpire (SetAboutToExpireCallback 7
         ((NewCacheItem ''k'' 0 (Some ''v'') 5)\<lparr>aboutToExpire := [3, 4]\<rparr>)) = [7]
   \<and> aboutToExpire (AddAboutToExpireCallback 7
         ((NewCacheItem ''k'' 0 (Some ''v'') 5)\<lparr>aboutToExpire := [3, 4]\<rparr>)) = [3, 4, 7]
   \<and> filter isCallback (emitted exampleWorld (snd (Set 6 ''a'' 0 None exampleWorld))) =
        [AddedItemCb 8 (NewCacheItem ''a'' 0 None 6), AddedItemCb 9 (NewCacheItem ''a'' 0 None 6)]
   \<and> items (tab exampleWorld) ''k'' = Some ((NewCacheItem ''k'' 0 (Some ''v'') 5)\<lparr>aboutToExpire := [3, 4]\<rparr>)
   \<and> filter isCallback (emitted exampleWorld (snd (Delete ''k'' exampleWorld))) =
       [AboutToDeleteItemCb 1 ((NewCacheItem ''k'' 0 (Some ''v'') 5)\<lparr>aboutToExpire := [3, 4]\<rparr>),
        AboutToDeleteItemCb 2 ((NewCacheItem ''k'' 0 (Some ''v'') 5)\<lparr>aboutToExpire := [3, 4]\<rparr>),
        AboutToExpireCb 3 ''k'', AboutToExpireCb 4 ''k'']"
  using callback_registries [of 7 exampleWorld "(NewCacheItem ''k'' 0 (Some ''v'') 5)\<lparr>aboutToExpire := [3, 4]\<rparr>" 6 "''a''" 0 None]
        callback_registries [of 7 exampleWorld "(NewCacheItem ''k'' 0 (Some ''v'') 5)\<lparr>aboutToExpire := [3, 4]\<rparr>" 6 "''k''" 0 None]
  by (simp add: exampleWorld_simps NewCacheItem_def)

section \<open>Replacing an entry\<close>

text \<open>
  C9: \<^verbatim>\<open>Set\<close> on a key that is present replaces the entry without a word to the delete
  side: what it appends to the trace is the lock, the store, the added-item callbacks
  on the new entry and the unlock, so no about-to-delete and no about-to-expire callback
  runs, and every other key keeps its entry.
\<close>

theorem Set_replaces_silently:
  "items (tab w) k = Some old \<Longrightarrow>
     fst (Set now k l d w) = NewCacheItem k l d now
     \<and> emitted w (snd (Set now k l d w)) =
         [Lock, StoreItem k (NewCacheItem k l d now)]
           @ map (\<lambda>c. AddedItemCb c (NewCacheItem k l d now)) (addedItem (tab w)) @ [Unlock]
     \<and> filter isDeleteOrExpireCb (emitted w (snd (Set now k l d w))) = []
     \<and> items (tab (snd (Set now k l d w))) k = Some (NewCacheItem k l d now)
     \<and> (\<forall>k'. k' \<noteq> k \<longrightarrow> items (tab (snd (Set now k l d w))) k' = items (tab w) k')"
  by (simp add: emitted_def Set_trace Set_tab) (simp add: Set_def Let_def)

theorem Set_replaces_silently_witness:
  "items (tab exampleWorld) ''k'' = Some ((NewCacheItem ''k'' 0 (Some ''v'') 5)\<lparr>aboutToExpire := [3, 4]\<rparr>)
   \<and> emitted exampleWorld (snd (Set 6 ''k'' 0 None exampleWorld)) =
       [Lock, StoreItem ''k'' (NewCacheItem ''k'' 0 None 6),
        AddedItemCb 8 (NewCacheItem ''k'' 0 None 6), AddedItemCb 9 (NewCacheItem ''k'' 0 None 6),
        Unlock]
   \<and> filter isDeleteOrExpireCb (emitted exampleWorld (snd (Set 6 ''k'' 0 None exampleWorld))) = []
   \<and> items (tab (snd (Set 6 ''k'' 0 None exampleWorld))) ''k'' = Some (NewCacheItem ''k'' 0 None 6)
   \<and> items (tab (snd (Set 6 ''k'' 0 None exampleWorld))) ''z'' = items (tab exampleWorld) ''z''"
  using Set_replaces_silently [of exampleWorld "''k''" _ 6 0 None]
  by (simp add: exampleWorld_simps)

section \<open>The expiration pass: one key at a time\<close>

lemma deleteInternal_frame:
  "deleteInternal k w = (res, w1) \<Longrightarrow>
     (\<forall>k'. k' \<noteq> k \<longrightarrow> items (tab w1) k' = items (tab w) k')
     \<and> items (tab w1) k = None
     \<and> sameSettings (tab w) (tab w1) \<and> (\<exists>es. trace w1 = trace w @ es)"
  by (auto simp: deleteInternal_def emit_def Let_def sameSettings_def split: option.splits)

lemma addInternal_frame:
  "(\<forall>k'. k' \<noteq> key item \<longrightarrow> items (tab (addInternal item w)) k' = items (tab w) k')
     \<and> items (tab (addInternal item w)) (key item) = Some item
     \<and> sameSettings (tab w) (tab (addInternal item w))
     \<and> trace (addInternal item w) =
         trace w @ StoreItem (key item) item # map (\<lambda>c. AddedItemCb c item) (addedItem (tab w))"
  by (auto simp: addInternal_def emit_def Let_def sameSettings_def)

lemma expireEntry_frame:
  "expireEntry now tnew k w = Inr w1 \<Longrightarrow>
     (\<forall>k'. k' \<noteq> k \<longrightarrow> items (tab w1) k' = items (tab w) k')
     \<and> sameSettings (tab w) (tab w1) \<and> (\<exists>es. trace w1 = trace w @ es)"
  by (auto simp: expireEntry_def deleteInternal_def addInternal_def emit_def Let_def
      sameSettings_def NewCacheItem_def split: option.splits if_splits prod.splits)

lemma expireEntry_total:
  "enableAutoLoad (tab w) \<longrightarrow> loadData (tab w) \<noteq> None \<Longrightarrow> \<exists>w1. expireEntry now tnew k w = Inr w1"
  by (auto simp: expireEntry_def Let_def split: option.splits if_splits prod.splits)

lemma sameSettings_refl: "sameSettings t t"
  by (simp add: sameSettings_def)

lemma sameSettings_trans: "sameSettings t t1 \<Longrightarrow> sameSettings t1 t2 \<Longrightarrow> sameSettings t t2"
  by (simp add: sameSettings_def)

lemma expirationLoop_frame:
  "expirationLoop now tnew ks w = Inr w1 \<Longrightarrow>
     (\<forall>k'. k' \<notin> set ks \<longrightarrow> items (tab w1) k' = items (tab w) k')
     \<and> sameSettings (tab w) (tab w1) \<and> (\<exists>es. trace w1 = trace w @ es)"
proof (induction ks arbitrary: w)
  case Nil
  then show ?case by (simp add: sameSettings_refl)
next
  case (Cons k ks)
  from Cons.prems obtain w2 where step: "expireEntry now tnew k w = Inr w2"
    and rest: "expirationLoop now tnew ks w2 = Inr w1"
    by (auto split: sum.splits)
  from expireEntry_frame [OF step] Cons.IH [OF rest] show ?case
    by (auto intro: sameSettings_trans)
qed

lemma expirationLoop_total:
  "enableAutoLoad (tab w) \<longrightarrow> loadData (tab w) \<noteq> None \<Longrightarrow>
     \<exists>w1. expirationLoop now tnew ks w = Inr w1"
proof (induction ks arbitrary: w)
  case Nil
  then show ?case by simp
next
  case (Cons k ks)
  from expireEntry_total [OF Cons.prems] obtain w2
    where step: "expireEntry now tnew k w = Inr w2" by blast
  from expireEntry_frame [OF step] Cons.prems
  have "enableAutoLoad (tab w2) \<longrightarrow> loadData (tab w2) \<noteq> None"
    by (simp add: sameSettings_def)
  from Cons.IH [OF this] step show ?case by auto
qed

lemma expirationLoop_append:
  "expirationLoop now tnew (xs @ ys) w =
     (case expirationLoop now tnew xs w of
        Inl p \<Rightarrow> Inl p
      | Inr w1 \<Rightarrow> expirationLoop now tnew ys w1)"
  by (induction xs arbitrary: w) (auto split: sum.splits)

lemma distinct_split_at:
  assumes "distinct ks" and "k \<in> set ks"
  shows "\<exists>ys. ks = takeWhile (\<lambda>x. x \<noteq> k) ks @ k # ys
           \<and> k \<notin> set (takeWhile (\<lambda>x. x \<noteq> k) ks) \<and> k \<notin> set ys"
proof -
  have "ks = takeWhile (\<lambda>x. x \<noteq> k) ks @ dropWhile (\<lambda>x. x \<noteq> k) ks" by simp
  moreover from assms(2) obtain ys where d: "dropWhile (\<lambda>x. x \<noteq> k) ks = k # ys"
    by (metis (mono_tags, lifting) dropWhile_eq_Nil_conv hd_dropWhile list.collapse)
  ultimately have eq: "ks = takeWhile (\<lambda>x. x \<noteq> k) ks @ k # ys" by simp
  have "k \<notin> set (takeWhile (\<lambda>x. x \<noteq> k) ks)"
    by (auto dest: set_takeWhileD)
  moreover have "k \<notin> set ys"
    using assms(1) eq by (metis distinct.simps(2) distinct_append)
  ultimately show ?thesis using eq by blast
qed

lemma ExpirationCheck_at:
  assumes ord: "distinct ks" "k \<in> set ks"
    and cfg: "enableAutoLoad (tab w) \<longrightarrow> loadData (tab w) \<noteq> None"
  shows "\<exists>w2 w3 es pre.
           expireEntry now tnew k (reached now tnew ks k w) = Inr w2
         \<and> trace (reached now tnew ks k w) = trace w @ pre
         \<and> ExpirationCheck now tnew ks w = Inr w3
         \<and> items (tab (reached now tnew ks k w)) k = items (tab w) k
         \<and> sameSettings (tab w) (tab (reached now tnew ks k w))
         \<and> items (tab w3) k = items (tab w2) k
         \<and> trace w3 = trace w2 @ es"
proof -
  let ?xs = "takeWhile (\<lambda>x. x \<noteq> k) ks"
  let ?w0 = "emit [Lock] w"
  from distinct_split_at [OF ord] obtain ys
    where eq: "ks = ?xs @ k # ys" and nx: "k \<notin> set ?xs" and ny: "k \<notin> set ys" by blast
  have cfg0: "enableAutoLoad (tab ?w0) \<longrightarrow> loadData (tab ?w0) \<noteq> None"
    using cfg by (simp add: emit_def)
  from expirationLoop_total [OF cfg0] obtain w1
    where l1: "expirationLoop now tnew ?xs ?w0 = Inr w1" by blast
  then have r: "reached now tnew ks k w = w1" by (simp add: reached_def)
  from expirationLoop_frame [OF l1] nx
  have f1: "items (tab w1) k = items (tab w) k" "sameSettings (tab w) (tab w1)"
    "\<exists>pre. trace w1 = trace w @ pre"
    by (auto simp: emit_def sameSettings_def)
  from f1(2) have cfg1: "enableAutoLoad (tab w1) \<longrightarrow> loadData (tab w1) \<noteq> None"
    using cfg by (simp add: sameSettings_def)
  from expireEntry_total [OF cfg1] obtain w2
    where s: "expireEntry now tnew k w1 = Inr w2" by blast
  from expireEntry_frame [OF s] cfg1
  have cfg2: "enableAutoLoad (tab w2) \<longrightarrow> loadData (tab w2) \<noteq> None"
    by (simp add: sameSettings_def)
  from expirationLoop_total [OF cfg2] obtain w3
    where l3: "expirationLoop now tnew ys w2 = Inr w3" by blast
  from expirationLoop_frame [OF l3] ny obtain es
    where f3: "items (tab w3) k = items (tab w2) k" "trace w3 = trace w2 @ es" by auto
  have "expirationLoop now tnew ks ?w0 = Inr w3"
    by (subst eq) (simp add: expirationLoop_append l1 s l3)
  then have "ExpirationCheck now tnew ks w = Inr (emit [Unlock] w3)"
    by (simp add: ExpirationCheck_def)
  moreover have "items (tab (emit [Unlock] w3)) k = items (tab w2) k"
    "trace (emit [Unlock] w3) = trace w2 @ (es @ [Unlock])"
    using f3 by (simp_all add: emit_def)
  ultimately show ?thesis using r s f1 by blast
qed

lemma expireEntry_keep:
  "items (tab w) k = Some it \<Longrightarrow> lifeSpan it = 0 \<or> \<not> expired now it \<Longrightarrow>
     expireEntry now tnew k w = Inr w"
  by (auto simp: expireEntry_def)

lemma expireEntry_delete:
  "items (tab w) k = Some it \<Longrightarrow> lifeSpan it \<noteq> 0 \<Longrightarrow> expired now it \<Longrightarrow>
   \<not> (enableAutoLoad (tab w) \<and> recentlyAccessed now it) \<Longrightarrow>
     expireEntry now tnew k w = Inr (snd (deleteInternal k w))"
  by (auto simp: expireEntry_def)

lemma expireEntry_load:
  "items (tab w) k = Some it \<Longrightarrow> lifeSpan it \<noteq> 0 \<Longrightarrow> expired now it \<Longrightarrow>
   enableAutoLoad (tab w) \<Longrightarrow> recentlyAccessed now it \<Longrightarrow> loadData (tab w) = Some f \<Longrightarrow>
   f k (ext w) = ((v, span, err), s) \<Longrightarrow>
     expireEntry now tnew k w =
       (if err = None
        then Inr (addInternal (NewCacheItem k span v (tnew k)) (emit [LoadData k] (w\<lparr>ext := s\<rparr>)))
        else Inr (snd (deleteInternal k (emit [LoadData k] (w\<lparr>ext := s\<rparr>)))))"
  by (simp add: expireEntry_def Let_def)

lemma deleteInternal_gone: "items (tab (snd (deleteInternal k w))) k = None"
  by (simp add: deleteInternal_def emit_def Let_def split: option.splits)

lemma addInternal_new:
  "items (tab (addInternal (NewCacheItem k span v t) w)) k = Some (NewCacheItem k span v t)"
  "trace (addInternal (NewCacheItem k span v t) w) =
     trace w @ StoreItem k (NewCacheItem k span v t)
       # map (\<lambda>c. AddedItemCb c (NewCacheItem k span v t)) (addedItem (tab w))"
  by (simp_all add: addInternal_def emit_def Let_def NewCacheItem_def)

lemma expireEntry_fate:
  assumes "items (tab w1) k = Some it" and "expireEntry now tnew k w1 = Inr w2"
  shows "items (tab w2) k =
     (if lifeSpan it = 0 \<or> \<not> expired now it then Some it
      else if enableAutoLoad (tab w1) \<and> recentlyAccessed now it then
        (case loadData (tab w1) of
           None \<Rightarrow> None
         | Some f \<Rightarrow>
             (case fst (f k (ext w1)) of
                (v, span, None) \<Rightarrow> Some (NewCacheItem k span v (tnew k))
              | (v, span, Some e) \<Rightarrow> None))
      else None)"
proof (cases "lifeSpan it = 0 \<or> \<not> expired now it")
  case True
  with assms expireEntry_keep [OF assms(1) True, of tnew] show ?thesis by auto
next
  case False
  note live = this
  show ?thesis
  proof (cases "enableAutoLoad (tab w1) \<and> recentlyAccessed now it")
    case False
    with live assms expireEntry_delete [OF assms(1) _ _ False, of tnew]
    show ?thesis by (auto simp: deleteInternal_gone)
  next
    case True
    with assms live obtain f where f: "loadData (tab w1) = Some f"
      by (auto simp: expireEntry_def split: option.splits)
    obtain v span err s where r: "f k (ext w1) = ((v, span, err), s)"
      by (metis prod.collapse)
    from live True expireEntry_load [OF assms(1) _ _ _ _ f r, of now tnew] assms(2)
    have "w2 = (if err = None
        then addInternal (NewCacheItem k span v (tnew k)) (emit [LoadData k] (w1\<lparr>ext := s\<rparr>))
        else snd (deleteInternal k (emit [LoadData k] (w1\<lparr>ext := s\<rparr>))))"
      by (auto split: if_splits)
    with live True f r show ?thesis
      by (auto simp: deleteInternal_gone addInternal_new)
  qed
qed

section \<open>The expiration pass on concrete tables\<close>

lemma sweepWorld_simps:
  "items (tab sweepWorld) =
     [''a'' \<mapsto> NewCacheItem ''a'' 0 (Some 0) 0,
      ''b'' \<mapsto> NewCacheItem ''b'' 40 (Some 0) 0,
      ''c'' \<mapsto> touched ''c'',
      ''d'' \<mapsto> NewCacheItem ''d'' 20 (Some 0) 0,
      ''e'' \<mapsto> touched ''e'',
      ''nil'' \<mapsto> touched ''nil'']"
  "loadData (tab sweepWorld) = Some testLoader"
  "enableAutoLoad (tab sweepWorld) = True"
  "addedItem (tab sweepWorld) = [8, 9]"
  "aboutToDeleteItem (tab sweepWorld) = []"
  "ext sweepWorld = 0"
  by (simp_all add: sweepWorld_def loaderWorld_simps)

lemma touched_simps:
  "lifeSpan (touched k) = 20" "createdOn (touched k) = 0" "accessedOn (touched k) = 25"
  by (simp_all add: touched_def NewCacheItem_def)

lemmas clock_defs = expired_def recentlyAccessed_def Sub_def minDuration_def maxDuration_def
  wrap64_def signed_divide_int_def

lemma sweepWorld_reached_e:
  "reached 30 (\<lambda>k. 31) sweepOrder ''e'' sweepWorld = emit [Lock] sweepWorld"
  by (simp add: reached_def sweepOrder_def)

lemma sweepWorld_step_e:
  "expireEntry 30 (\<lambda>k. 31) ''e'' (emit [Lock] sweepWorld) =
     Inr (addInternal (NewCacheItem ''e'' 20000000 (Some 1) 31)
            (emit [LoadData ''e''] ((emit [Lock] sweepWorld)\<lparr>ext := 1\<rparr>)))"
  using expireEntry_load [of "emit [Lock] sweepWorld" "''e''"
      "touched ''e''" 30 testLoader
      "Some 1" 20000000 None 1 "\<lambda>k. 31"]
  by (simp add: emit_def sweepWorld_simps touched_simps clock_defs testLoader_def)

lemma sweepWorld_reached_c:
  "ext (reached 30 (\<lambda>k. 31) sweepOrder ''c'' sweepWorld) = 1"
  by (simp add: reached_def sweepOrder_def sweepWorld_step_e)
    (simp add: addInternal_def emit_def Let_def)

lemma sweepWorld_loaderResult:
  "loaderResult 30 (\<lambda>k. 31) sweepOrder ''e'' sweepWorld = Some (Some 1, 20000000, None)"
  "loaderResult 30 (\<lambda>k. 31) sweepOrder ''c'' sweepWorld = Some (Some 2, 20000000, None)"
  "loaderResult 30 (\<lambda>k. 31) sweepOrder ''nil'' sweepWorld = Some (None, 0, Some (ErrOther ''not found''))"
  by (simp_all add: loaderResult_def sweepWorld_simps sweepWorld_reached_e sweepWorld_reached_c
      testLoader_def emit_def)

lemma sweepWorld_order: "rangeOrder sweepOrder (items (tab sweepWorld))"
  by (auto simp: rangeOrder_def sweepOrder_def sweepWorld_simps)

lemma negativeWorld_simps:
  "items (tab negativeWorld) = [''k'' \<mapsto> NewCacheItem ''k'' (- 1) (Some ''v'') 0]"
  "enableAutoLoad (tab negativeWorld) = False"
  "aboutToDeleteItem (tab negativeWorld) = []"
  by (simp_all add: negativeWorld_def emptyWorld_def New_def Let_def)

section \<open>What one expiration pass does to each entry\<close>

text \<open>
  C2, as the code has it: one expiration pass over a table whose auto-load flag is set
  only together with a loader. The pass ends without a panic, and it decides every entry
  by itself. An entry whose lifespan is 0, or with \<open>now - createdOn < lifeSpan\<close>, stays as
  it is. Every other entry (lifespan not 0, positive or negative, and
  \<open>now - createdOn \<ge> lifeSpan\<close>) is deleted, except that when the loader flag is set,
  \<open>now - accessedOn \<le> lifeSpan * 2 / 3\<close> in \<^verbatim>\<open>int64\<close> arithmetic, and the loader returns no
  error, it is replaced by a fresh entry with the loader's value and lifespan. A key that
  was absent stays absent.
\<close>

theorem ExpirationCheck_fate:
  assumes "rangeOrder ks (items (tab w))"
    and "enableAutoLoad (tab w) \<longrightarrow> loadData (tab w) \<noteq> None"
  shows "\<exists>w1. ExpirationCheck now tnew ks w = Inr w1
     \<and> (\<forall>k. items (tab w) k = None \<longrightarrow> items (tab w1) k = None)
     \<and> (\<forall>k it. items (tab w) k = Some it \<longrightarrow>
          items (tab w1) k =
            (if lifeSpan it = 0 \<or> \<not> expired now it then Some it
             else if enableAutoLoad (tab w) \<and> recentlyAccessed now it then
               (case loaderResult now tnew ks k w of
                  Some (v, span, None) \<Rightarrow> Some (NewCacheItem k span v (tnew k))
                | _ \<Rightarrow> None)
             else None))"
proof -
  let ?w0 = "emit [Lock] w"
  have cfg0: "enableAutoLoad (tab ?w0) \<longrightarrow> loadData (tab ?w0) \<noteq> None"
    using assms(2) by (simp add: emit_def)
  from expirationLoop_total [OF cfg0] obtain w3
    where l: "expirationLoop now tnew ks ?w0 = Inr w3" by blast
  then have res: "ExpirationCheck now tnew ks w = Inr (emit [Unlock] w3)"
    by (simp add: ExpirationCheck_def)
  have absent: "items (tab (emit [Unlock] w3)) k = None" if "items (tab w) k = None" for k
  proof -
    from that assms(1) have "k \<notin> set ks" by (auto simp: rangeOrder_def)
    with expirationLoop_frame [OF l] that show ?thesis by (simp add: emit_def)
  qed
  have present: "items (tab (emit [Unlock] w3)) k =
            (if lifeSpan it = 0 \<or> \<not> expired now it then Some it
             else if enableAutoLoad (tab w) \<and> recentlyAccessed now it then
               (case loaderResult now tnew ks k w of
                  Some (v, span, None) \<Rightarrow> Some (NewCacheItem k span v (tnew k))
                | _ \<Rightarrow> None)
             else None)" if it: "items (tab w) k = Some it" for k it
  proof -
    from it assms(1) have ord: "distinct ks" "k \<in> set ks" by (auto simp: rangeOrder_def)
    from ExpirationCheck_at [OF ord assms(2), of now tnew] res obtain w2
      where s: "expireEntry now tnew k (reached now tnew ks k w) = Inr w2"
        and i1: "items (tab (reached now tnew ks k w)) k = items (tab w) k"
        and c1: "sameSettings (tab w) (tab (reached now tnew ks k w))"
        and i3: "items (tab (emit [Unlock] w3)) k = items (tab w2) k"
      by auto
    from i1 it have "items (tab (reached now tnew ks k w)) k = Some it" by simp
    from expireEntry_fate [OF this s] i3 c1 assms(2) show ?thesis
      by (auto simp: sameSettings_def loaderResult_def split: option.splits prod.splits)
  qed
  from res absent present show ?thesis by blast
qed

theorem ExpirationCheck_fate_witness:
  "rangeOrder sweepOrder (items (tab sweepWorld))
   \<and> loadData (tab sweepWorld) \<noteq> None
   \<and> (\<exists>w1. ExpirationCheck 30 (\<lambda>k. 31) sweepOrder sweepWorld = Inr w1
        \<and> items (tab w1) ''a'' = Some (NewCacheItem ''a'' 0 (Some 0) 0)
        \<and> items (tab w1) ''b'' = Some (NewCacheItem ''b'' 40 (Some 0) 0)
        \<and> items (tab w1) ''c'' = Some (NewCacheItem ''c'' 20000000 (Some 2) 31)
        \<and> items (tab w1) ''d'' = None
        \<and> items (tab w1) ''e'' = Some (NewCacheItem ''e'' 20000000 (Some 1) 31)
        \<and> items (tab w1) ''nil'' = None
        \<and> items (tab w1) ''z'' = None)"
proof -
  have cfg: "enableAutoLoad (tab sweepWorld) \<longrightarrow> loadData (tab sweepWorld) \<noteq> None"
    by (simp add: sweepWorld_simps)
  from ExpirationCheck_fate [OF sweepWorld_order cfg, of 30 "\<lambda>k. 31"] obtain w1
    where res: "ExpirationCheck 30 (\<lambda>k. 31) sweepOrder sweepWorld = Inr w1"
      and absent: "\<And>k. items (tab sweepWorld) k = None \<Longrightarrow> items (tab w1) k = None"
      and present: "\<And>k it. items (tab sweepWorld) k = Some it \<Longrightarrow>
          items (tab w1) k =
            (if lifeSpan it = 0 \<or> \<not> expired 30 it then Some it
             else if enableAutoLoad (tab sweepWorld) \<and> recentlyAccessed 30 it then
               (case loaderResult 30 (\<lambda>k. 31) sweepOrder k sweepWorld of
                  Some (v, span, None) \<Rightarrow> Some (NewCacheItem k span v 31)
                | _ \<Rightarrow> None)
             else None)"
    by blast
  have a: "items (tab w1) ''a'' = Some (NewCacheItem ''a'' 0 (Some 0) 0)"
    using present [of "''a''" "NewCacheItem ''a'' 0 (Some 0) 0"]
    by (simp add: sweepWorld_simps NewCacheItem_def)
  have b: "items (tab w1) ''b'' = Some (NewCacheItem ''b'' 40 (Some 0) 0)"
    using present [of "''b''" "NewCacheItem ''b'' 40 (Some 0) 0"]
    by (simp add: sweepWorld_simps NewCacheItem_def clock_defs)
  have c: "items (tab w1) ''c'' = Some (NewCacheItem ''c'' 20000000 (Some 2) 31)"
    using present [of "''c''" "touched ''c''"]
    by (simp add: sweepWorld_simps sweepWorld_loaderResult touched_simps clock_defs)
  have d: "items (tab w1) ''d'' = None"
    using present [of "''d''" "NewCacheItem ''d'' 20 (Some 0) 0"]
    by (simp add: sweepWorld_simps NewCacheItem_def clock_defs)
  have e: "items (tab w1) ''e'' = Some (NewCacheItem ''e'' 20000000 (Some 1) 31)"
    using present [of "''e''" "touched ''e''"]
    by (simp add: sweepWorld_simps sweepWorld_loaderResult touched_simps clock_defs)
  have n: "items (tab w1) ''nil'' = None"
    using present [of "''nil''" "touched ''nil''"]
    by (simp add: sweepWorld_simps sweepWorld_loaderResult touched_simps clock_defs)
  have z: "items (tab w1) ''z'' = None"
    using absent [of "''z''"] by (simp add: sweepWorld_simps)
  from res a b c d e n z sweepWorld_order show ?thesis
    by (simp add: sweepWorld_simps)
qed

text \<open>
  C2 as stated fails: it has the pass delete exactly the expired entries whose lifespan
  is greater than 0. An entry with lifespan -1 is deleted by the pass.
\<close>

theorem ExpirationCheck_deletes_negative_lifeSpan:
  "map_option lifeSpan (items (tab negativeWorld) ''k'') = Some (- 1)
   \<and> rangeOrder [''k''] (items (tab negativeWorld))
   \<and> map_sum id (\<lambda>w1. items (tab w1) ''k'') (ExpirationCheck 10 (\<lambda>k. 10) [''k''] negativeWorld)
       = Inr None"
proof -
  have "expireEntry 10 (\<lambda>k. 10) ''k'' (emit [Lock] negativeWorld) =
          Inr (snd (deleteInternal ''k'' (emit [Lock] negativeWorld)))"
    using expireEntry_delete [of "emit [Lock] negativeWorld" "''k''"
        "NewCacheItem ''k'' (- 1) (Some ''v'') 0" 10 "\<lambda>k. 10"]
    by (simp add: emit_def negativeWorld_simps NewCacheItem_def clock_defs)
  then show ?thesis
    by (simp add: ExpirationCheck_def deleteInternal_gone emit_def negativeWorld_simps
        NewCacheItem_def rangeOrder_def)
qed

section \<open>Refreshed entries and the added-item callbacks\<close>

text \<open>
  C8: when the pass reaches an entry that has expired, was accessed recently, and for
  which the loader returns a value with no error, the replacement goes through
  \<^verbatim>\<open>addInternal\<close> as in \<^verbatim>\<open>Set\<close>: the pass stores the new entry and then runs every
  registered added-item callback on it, in registration order.
\<close>

theorem refresh_fires_added_callbacks:
  assumes "rangeOrder ks (items (tab w))" and "items (tab w) k = Some it"
    and "lifeSpan it \<noteq> 0" and "expired now it"
    and "enableAutoLoad (tab w)" and "recentlyAccessed now it"
    and "loadData (tab w) = Some f"
    and "fst (f k (ext (reached now tnew ks k w))) = (v, span, None)"
  shows "\<exists>w1 pre post. ExpirationCheck now tnew ks w = Inr w1
     \<and> emitted w w1 =
         pre @ [LoadData k, StoreItem k (NewCacheItem k span v (tnew k))]
           @ map (\<lambda>c. AddedItemCb c (NewCacheItem k span v (tnew k))) (addedItem (tab w))
           @ post
     \<and> items (tab w1) k = Some (NewCacheItem k span v (tnew k))"
proof -
  let ?r = "reached now tnew ks k w"
  let ?new = "NewCacheItem k span v (tnew k)"
  from assms(1,2) have ord: "distinct ks" "k \<in> set ks" by (auto simp: rangeOrder_def)
  have cfg: "enableAutoLoad (tab w) \<longrightarrow> loadData (tab w) \<noteq> None"
    using assms(7) by simp
  from ExpirationCheck_at [OF ord cfg, of now tnew] obtain w2 w3 es pre
    where s: "expireEntry now tnew k ?r = Inr w2"
      and t1: "trace ?r = trace w @ pre"
      and res: "ExpirationCheck now tnew ks w = Inr w3"
      and i1: "items (tab ?r) k = items (tab w) k"
      and c1: "sameSettings (tab w) (tab ?r)"
      and i3: "items (tab w3) k = items (tab w2) k"
      and t3: "trace w3 = trace w2 @ es"
    by blast
  obtain s1 where r: "f k (ext ?r) = ((v, span, None), s1)"
    using assms(8) by (metis prod.collapse)
  have it: "items (tab ?r) k = Some it" using i1 assms(2) by simp
  have al: "enableAutoLoad (tab ?r)" and ld: "loadData (tab ?r) = Some f"
    and cb: "addedItem (tab ?r) = addedItem (tab w)"
    using c1 assms(5,7) by (simp_all add: sameSettings_def)
  from expireEntry_load [OF it assms(3,4) al assms(6) ld r, of tnew] s
  have w2: "w2 = addInternal ?new (emit [LoadData k] (?r\<lparr>ext := s1\<rparr>))" by simp
  have "trace w2 = trace w @ pre @ [LoadData k, StoreItem k ?new]
                     @ map (\<lambda>c. AddedItemCb c ?new) (addedItem (tab w))"
    by (simp add: w2 addInternal_new emit_def t1 cb)
  with t3 have "emitted w w3 = pre @ [LoadData k, StoreItem k ?new]
                     @ map (\<lambda>c. AddedItemCb c ?new) (addedItem (tab w)) @ es"
    by (simp add: emitted_def)
  moreover have "items (tab w3) k = Some ?new"
    by (simp add: i3 w2 addInternal_new)
  ultimately show ?thesis using res by blast
qed

theorem refresh_fires_added_callbacks_witness:
  "rangeOrder sweepOrder (items (tab sweepWorld))
   \<and> items (tab sweepWorld) ''c'' = Some (touched ''c'')
   \<and> expired 30 (touched ''c'')
   \<and> enableAutoLoad (tab sweepWorld)
   \<and> recentlyAccessed 30 (touched ''c'')
   \<and> loadData (tab sweepWorld) = Some testLoader
   \<and> fst (testLoader ''c'' (ext (reached 30 (\<lambda>k. 31) sweepOrder ''c'' sweepWorld)))
        = (Some 2, 20000000, None)
   \<and> (\<exists>w1 pre post. ExpirationCheck 30 (\<lambda>k. 31) sweepOrder sweepWorld = Inr w1
        \<and> emitted sweepWorld w1 =
            pre @ [LoadData ''c'', StoreItem ''c'' (NewCacheItem ''c'' 20000000 (Some 2) 31),
                   AddedItemCb 8 (NewCacheItem ''c'' 20000000 (Some 2) 31),
                   AddedItemCb 9 (NewCacheItem ''c'' 20000000 (Some 2) 31)] @ post)"
proof -
  let ?it = "touched ''c''"
  have 1: "items (tab sweepWorld) ''c'' = Some ?it" by (simp add: sweepWorld_simps)
  have 2: "lifeSpan ?it \<noteq> 0" by (simp add: touched_simps)
  have 3: "expired 30 ?it" by (simp add: touched_simps clock_defs)
  have 4: "enableAutoLoad (tab sweepWorld)" by (simp add: sweepWorld_simps)
  have 5: "recentlyAccessed 30 ?it" by (simp add: touched_simps clock_defs)
  have 6: "loadData (tab sweepWorld) = Some testLoader" by (simp add: sweepWorld_simps)
  have 7: "fst (testLoader ''c'' (ext (reached 30 (\<lambda>k. 31) sweepOrder ''c'' sweepWorld)))
        = (Some 2, 20000000, None)"
    by (simp add: sweepWorld_reached_c testLoader_def)
  from refresh_fires_added_callbacks [OF sweepWorld_order 1 2 3 4 5 6 7]
  have "\<exists>w1 pre post. ExpirationCheck 30 (\<lambda>k. 31) sweepOrder sweepWorld = Inr w1
        \<and> emitted sweepWorld w1 =
            pre @ [LoadData ''c'', StoreItem ''c'' (NewCacheItem ''c'' 20000000 (Some 2) 31),
                   AddedItemCb 8 (NewCacheItem ''c'' 20000000 (Some 2) 31),
                   AddedItemCb 9 (NewCacheItem ''c'' 20000000 (Some 2) 31)] @ post"
    by (simp add: sweepWorld_simps) blast
  with sweepWorld_order 1 3 4 5 6 7 show ?thesis by - (intro conjI; assumption)
qed

section \<open>The most accessed items\<close>

lemma collect_map_filter:
  "collect c n ps m = List.map_filter (\<lambda>p. m (fst p)) (take (nat (n - c)) ps)"
proof (induction ps arbitrary: c)
  case Nil
  then show ?case by (simp add: List.map_filter_simps)
next
  case (Cons p ps)
  show ?case
  proof (cases "c \<ge> n")
    case True
    then show ?thesis by (simp add: List.map_filter_simps)
  next
    case False
    then have "nat (n - c) = Suc (nat (n - (c + 1)))" by simp
    with False Cons.IH [of "c + 1"] show ?thesis
      by (simp add: List.map_filter_simps split: option.splits)
  qed
qed

lemma pairsOf_simps:
  "pairsOf [] m = []"
  "pairsOf (k # ks) m =
     (case m k of Some v \<Rightarrow> [(k, accessCount v)] | None \<Rightarrow> []) @ pairsOf ks m"
  by (simp_all add: pairsOf_def)

lemma pairsOf_mem:
  "p \<in> set (pairsOf ks m) \<Longrightarrow>
     m (fst p) \<noteq> None \<and> snd p = accessCount (the (m (fst p)))"
proof (induction ks)
  case Nil
  then show ?case by (simp add: pairsOf_simps)
next
  case (Cons k ks)
  show ?case
  proof (cases "m k")
    case None
    with Cons show ?thesis by (simp add: pairsOf_simps)
  next
    case (Some v)
    with Cons.prems have "p = (k, accessCount v) \<or> p \<in> set (pairsOf ks m)"
      by (simp add: pairsOf_simps)
    with Cons.IH Some show ?thesis by auto
  qed
qed

lemma pairsOf_range:
  "set ks \<subseteq> dom m \<Longrightarrow> pairsOf ks m = map (\<lambda>k. (k, accessCount (the (m k)))) ks"
  by (induction ks) (auto simp: pairsOf_simps)

lemma sortsByLess_set: "sortsByLess srt \<Longrightarrow> set (srt p) = set p"
  by (metis sortsByLess_def mset_eq_setD)

lemma sortsByLess_length: "sortsByLess srt \<Longrightarrow> length (srt p) = length p"
  by (metis sortsByLess_def mset_eq_length)

lemma sortsByLess_sorted:
  "sortsByLess srt \<Longrightarrow> sorted_wrt (\<lambda>a b. snd a \<ge> snd b) (srt p)"
  by (simp add: sortsByLess_def Less_def not_less)

lemma MostAccessed_eq:
  assumes "sortsByLess srt"
  shows "MostAccessed srt ks n t =
           map (\<lambda>p. the (items t (fst p))) (take (nat n) (srt (pairsOf ks (items t))))"
proof -
  let ?q = "take (nat n) (srt (pairsOf ks (items t)))"
  have "\<forall>p \<in> set ?q. items t (fst p) \<noteq> None"
    using pairsOf_mem [of _ ks "items t"] sortsByLess_set [OF assms]
    by (fastforce dest: in_set_takeD)
  then have "filter (\<lambda>p. items t (fst p) \<noteq> None) ?q = ?q" by simp
  then show ?thesis
    by (simp add: MostAccessed_def collect_map_filter List.map_filter_def)
qed

lemma sortPairs_sorts: "sortsByLess sortPairs"
  unfolding sortsByLess_def sortPairs_def Less_def
proof (intro allI conjI)
  fix p :: "('a \<times> int) list"
  show "mset (rev (sort_key snd p)) = mset p" by simp
  have "sorted (map snd (sort_key snd p))" by simp
  then have "sorted_wrt (\<lambda>a b. snd a \<le> snd b) (sort_key snd p)"
    by (simp add: sorted_wrt_map)
  then show "sorted_wrt (\<lambda>a b. \<not> snd a < snd b) (rev (sort_key snd p))"
    by (simp add: sorted_wrt_rev not_less)
qed

lemma MostAccessed_length:
  assumes "sortsByLess srt" and "rangeOrder ks (items t)"
  shows "length (MostAccessed srt ks n t) = min (nat n) (card (dom (items t)))"
proof -
  from assms(2) have sub: "set ks \<subseteq> dom (items t)" and d: "distinct ks"
    and c: "card (dom (items t)) = length ks"
    by (auto simp: rangeOrder_def distinct_card [symmetric])
  show ?thesis
    by (simp add: MostAccessed_eq [OF assms(1)] sortsByLess_length [OF assms(1)]
        pairsOf_range [OF sub] c min.commute)
qed

lemma MostAccessed_sorted:
  assumes "sortsByLess srt"
  shows "sorted_wrt (\<lambda>a b. accessCount a \<ge> accessCount b) (MostAccessed srt ks n t)"
proof -
  let ?q = "srt (pairsOf ks (items t))"
  have eq: "snd p = accessCount (the (items t (fst p)))" if "p \<in> set (take (nat n) ?q)" for p
    using that pairsOf_mem [of p ks "items t"] sortsByLess_set [OF assms]
    by (auto dest: in_set_takeD)
  have "sorted_wrt (\<lambda>a b. snd a \<ge> snd b) (take (nat n) ?q)"
    using sortsByLess_sorted [OF assms] by (rule sorted_wrt_take)
  then have "sorted_wrt (\<lambda>a b. accessCount (the (items t (fst a)))
                      \<ge> accessCount (the (items t (fst b)))) (take (nat n) ?q)"
    by (rule sorted_wrt_mono_rel [rotated]) (simp add: eq)
  then show ?thesis
    by (simp add: MostAccessed_eq [OF assms] sorted_wrt_map)
qed

lemma MostAccessed_stored:
  assumes "sortsByLess srt" and "r \<in> set (MostAccessed srt ks n t)"
  shows "\<exists>k. items t k = Some r"
proof -
  from assms(2) obtain p where p: "p \<in> set (srt (pairsOf ks (items t)))"
    and r: "r = the (items t (fst p))"
    by (auto simp: MostAccessed_eq [OF assms(1)] dest: in_set_takeD)
  from p pairsOf_mem [of p ks "items t"] sortsByLess_set [OF assms(1)]
  have "items t (fst p) \<noteq> None" by auto
  with r show ?thesis by auto
qed

lemma descending_unique:
  assumes "sorted_wrt (\<lambda>a b. a \<ge> b) (xs :: int list)" and "distinct xs"
    and "set xs = int ` {0..<N}"
  shows "xs = map int (rev [0..<N])"
proof -
  have "sorted (rev xs)" using assms(1) by (simp add: sorted_wrt_rev)
  moreover have "distinct (rev xs)" using assms(2) by simp
  moreover have "sorted (map int [0..<N])" by (simp add: sorted_map)
  moreover have "distinct (map int [0..<N])" by (simp add: distinct_map)
  moreover have "set (rev xs) = set (map int [0..<N])" using assms(3) by simp
  ultimately have "rev xs = map int [0..<N]" by (rule sorted_distinct_set_unique)
  then have "rev (rev xs) = rev (map int [0..<N])" by simp
  then show ?thesis by (simp add: rev_map)
qed

lemma MostAccessed_chosen:
  assumes srt: "sortsByLess srt" and ord: "rangeOrder ks (items t)"
  shows "\<exists>chosen. distinct chosen
     \<and> map Some (MostAccessed srt ks n t) = map (items t) chosen
     \<and> (\<forall>k \<in> set chosen. \<forall>k' it it'.
           k' \<notin> set chosen \<and> items t k = Some it \<and> items t k' = Some it'
           \<longrightarrow> accessCount it' \<le> accessCount it)"
proof -
  let ?ps = "pairsOf ks (items t)"
  let ?q = "srt ?ps"
  let ?chosen = "map fst (take (nat n) ?q)"
  from ord have sub: "set ks \<subseteq> dom (items t)" and d: "distinct ks"
    and dm: "dom (items t) = set ks"
    by (auto simp: rangeOrder_def)
  have ps: "?ps = map (\<lambda>k. (k, accessCount (the (items t k)))) ks"
    by (rule pairsOf_range [OF sub])
  have "map fst ?ps = ks" by (simp add: ps o_def)
  moreover have "mset (map fst ?q) = mset (map fst ?ps)"
    using srt by (simp add: sortsByLess_def)
  ultimately have dq: "distinct (map fst ?q)"
    using d by (metis mset_eq_imp_distinct_iff)
  have split: "?q = take (nat n) ?q @ drop (nat n) ?q" by simp
  have 1: "distinct ?chosen"
    using dq by (simp add: take_map [symmetric] distinct_take)
  have mem: "items t (fst p) \<noteq> None \<and> snd p = accessCount (the (items t (fst p)))"
    if "p \<in> set ?q" for p
    using that pairsOf_mem [of p ks "items t"] sortsByLess_set [OF srt] by auto
  have 2: "map Some (MostAccessed srt ks n t) = map (items t) ?chosen"
    using mem by (auto simp: MostAccessed_eq [OF srt] dest: in_set_takeD)
  have 3: "accessCount it' \<le> accessCount it"
    if k: "k \<in> set ?chosen" and k': "k' \<notin> set ?chosen"
      and it: "items t k = Some it" and it': "items t k' = Some it'" for k k' it it'
  proof -
    from k obtain p where p: "p \<in> set (take (nat n) ?q)" "fst p = k" by auto
    from it' dm have "(k', accessCount it') \<in> set ?ps" by (force simp: ps)
    then have "(k', accessCount it') \<in> set ?q" by (simp add: sortsByLess_set [OF srt])
    then have "(k', accessCount it') \<in> set (take (nat n) ?q) \<union> set (drop (nat n) ?q)"
      by (metis split set_append)
    moreover have "(k', accessCount it') \<notin> set (take (nat n) ?q)"
      using k' by force
    ultimately have p': "(k', accessCount it') \<in> set (drop (nat n) ?q)" by simp
    have "sorted_wrt (\<lambda>a b. snd a \<ge> snd b) (take (nat n) ?q @ drop (nat n) ?q)"
      using sortsByLess_sorted [OF srt, of ?ps] by simp
    then have "\<forall>x \<in> set (take (nat n) ?q). \<forall>y \<in> set (drop (nat n) ?q). snd x \<ge> snd y"
      unfolding sorted_wrt_append by blast
    with p(1) p' have "snd p \<ge> accessCount it'"
      by fastforce
    moreover from p mem [of p] it have "snd p = accessCount it"
      by (auto dest: in_set_takeD)
    ultimately show ?thesis by simp
  qed
  from 1 2 3 show ?thesis by blast
qed

lemma MostAccessed_keys:
  assumes srt: "sortsByLess srt" and ord: "rangeOrder ks (items t)"
    and dom: "dom (items t) = kf ` {0..<N}" and inj: "inj_on kf {0..<N}"
    and ent: "\<forall>i<N. \<exists>it. items t (kf i) = Some it \<and> key it = kf i \<and> accessCount it = int i"
  shows "map key (MostAccessed srt ks n t) = map kf (take (nat n) (rev [0..<N]))"
proof -
  let ?ac = "\<lambda>k. accessCount (the (items t k))"
  let ?ps = "pairsOf ks (items t)"
  let ?q = "srt ?ps"
  from ord have ks: "distinct ks" "set ks = kf ` {0..<N}"
    by (simp_all add: rangeOrder_def dom)
  have ps: "?ps = map (\<lambda>k. (k, ?ac k)) ks"
    using ord by (intro pairsOf_range) (simp add: rangeOrder_def)
  have ac: "?ac (kf i) = int i" if "i < N" for i
    using ent that by auto
  have shape: "p = (kf (nat (snd p)), snd p) \<and> nat (snd p) < N" if "p \<in> set ?q" for p
  proof -
    from that have "p \<in> set ?ps" by (simp add: sortsByLess_set [OF srt])
    then obtain i where "i < N" "p = (kf i, ?ac (kf i))" using ks(2) by (auto simp: ps)
    then show ?thesis by (simp add: ac)
  qed
  have "inj_on ?ac (set ks)"
    unfolding ks(2) by (rule inj_onI) (auto simp: ac)
  then have "distinct (map snd ?ps)"
    using ks(1) by (simp add: ps distinct_map o_def)
  moreover have m: "mset (map snd ?q) = mset (map snd ?ps)"
    using srt by (simp add: sortsByLess_def)
  ultimately have d: "distinct (map snd ?q)"
    by (metis mset_eq_imp_distinct_iff)
  have "set (map snd ?ps) = int ` {0..<N}"
    by (auto simp: ps ks(2) ac image_iff)
  with m have st: "set (map snd ?q) = int ` {0..<N}"
    by (metis mset_eq_setD)
  have "sorted_wrt (\<lambda>a b. a \<ge> b) (map snd ?q)"
    using sortsByLess_sorted [OF srt, of ?ps] by (simp add: sorted_wrt_map)
  from descending_unique [OF this d st] have sn: "map snd ?q = map int (rev [0..<N])" .
  have "?q = map (\<lambda>p. (kf (nat (snd p)), snd p)) ?q"
    using shape by (simp add: map_idI)
  also have "\<dots> = map (\<lambda>s. (kf (nat s), s)) (map snd ?q)" by (simp add: o_def)
  also have "\<dots> = map (\<lambda>i. (kf i, int i)) (rev [0..<N])" by (simp add: sn o_def)
  finally have q: "?q = map (\<lambda>i. (kf i, int i)) (rev [0..<N])" .
  have "map key (MostAccessed srt ks n t) =
          map (\<lambda>i. key (the (items t (kf i)))) (take (nat n) (rev [0..<N]))"
    by (simp add: MostAccessed_eq [OF srt] q o_def take_map)
  also have "\<dots> = map kf (take (nat n) (rev [0..<N]))"
  proof (intro map_cong refl)
    fix i assume "i \<in> set (take (nat n) (rev [0..<N]))"
    then have "i < N" by (auto dest: in_set_takeD)
    with ent show "key (the (items t (kf i))) = kf i" by auto
  qed
  finally show ?thesis .
qed

lemma accessTable_simps:
  "dom (items accessTable) = {0..<100}"
  "i < 100 \<Longrightarrow> items accessTable i =
     Some ((NewCacheItem i 10000000000 (Some ''testvalue'') 0)\<lparr>accessCount := int i\<rparr>)"
  by (auto simp: accessTable_def New_def Let_def dom_def)

text \<open>
  C7: for any result of \<^verbatim>\<open>sort.Sort\<close> and any order of \<^verbatim>\<open>range\<close>, \<^verbatim>\<open>MostAccessed(n)\<close>
  returns at most \<open>n\<close> entries (as many as \<open>n\<close> and the size of the table allow), in order of
  non-increasing access count, and each of them is an entry stored in the table, returned
  as stored; the function returns no new table. They are the most accessed ones: the
  entries returned are those stored under a list of distinct keys, in that order, and no
  entry stored under another key has a larger access count than any of them. In
  particular, when the table holds 100 keys and the entry of the \<open>i\<close>-th key was accessed
  \<open>i\<close> times, \<^verbatim>\<open>MostAccessed(m)\<close> returns the entries of the \<open>m\<close> last keys in descending key
  order, the 99th key first, for every \<open>m\<close>: all 100 for \<^verbatim>\<open>MostAccessed(100)\<close>, and 99
  entries for \<^verbatim>\<open>MostAccessed(99)\<close>.
\<close>

theorem MostAccessed_ranked:
  assumes "sortsByLess srt" and "rangeOrder ks (items t)"
  shows "int (length (MostAccessed srt ks n t)) \<le> max 0 n
     \<and> length (MostAccessed srt ks n t) = min (nat n) (card (dom (items t)))
     \<and> sorted_wrt (\<lambda>a b. accessCount a \<ge> accessCount b) (MostAccessed srt ks n t)
     \<and> (\<forall>r \<in> set (MostAccessed srt ks n t). \<exists>k. items t k = Some r)
     \<and> (\<exists>chosen. distinct chosen
          \<and> map Some (MostAccessed srt ks n t) = map (items t) chosen
          \<and> (\<forall>k \<in> set chosen. \<forall>k' it it'.
                k' \<notin> set chosen \<and> items t k = Some it \<and> items t k' = Some it'
                \<longrightarrow> accessCount it' \<le> accessCount it))
     \<and> (dom (items t) = kf ` {0..<100} \<and> inj_on kf {0..<100}
          \<and> (\<forall>i<100. \<exists>it. items t (kf i) = Some it \<and> key it = kf i \<and> accessCount it = int i)
          \<longrightarrow> map key (MostAccessed srt ks 100 t) = map kf (rev [0..<100])
              \<and> length (MostAccessed srt ks 99 t) = 99
              \<and> (\<forall>m. map key (MostAccessed srt ks m t) = map kf (take (nat m) (rev [0..<100]))))"
proof -
  have len: "length (MostAccessed srt ks n t) = min (nat n) (card (dom (items t)))" for n
    by (rule MostAccessed_length [OF assms])
  have 1: "int (length (MostAccessed srt ks n t)) \<le> max 0 n"
    by (simp add: len)
  have 3: "sorted_wrt (\<lambda>a b. accessCount a \<ge> accessCount b) (MostAccessed srt ks n t)"
    by (rule MostAccessed_sorted [OF assms(1)])
  have 4: "\<forall>r \<in> set (MostAccessed srt ks n t). \<exists>k. items t k = Some r"
    using MostAccessed_stored [OF assms(1)] by blast
  note 5 = MostAccessed_chosen [OF assms, of n]
  have 6: "map key (MostAccessed srt ks 100 t) = map kf (rev [0..<100])
              \<and> length (MostAccessed srt ks 99 t) = 99
              \<and> (\<forall>m. map key (MostAccessed srt ks m t) = map kf (take (nat m) (rev [0..<100])))"
    if d: "dom (items t) = kf ` {0..<100}" and i: "inj_on kf {0..<100}"
      and e: "\<forall>i<100. \<exists>it. items t (kf i) = Some it \<and> key it = kf i \<and> accessCount it = int i"
  proof -
    have all: "map key (MostAccessed srt ks m t) = map kf (take (nat m) (rev [0..<100]))" for m
      by (rule MostAccessed_keys [OF assms d i e])
    from all [of 100] have "map key (MostAccessed srt ks 100 t) = map kf (rev [0..<100])"
      by simp
    moreover have "card (dom (items t)) = 100" by (simp add: d card_image [OF i])
    then have "length (MostAccessed srt ks 99 t) = 99" by (simp add: len)
    ultimately show ?thesis using all by blast
  qed
  from 1 len [of n] 3 4 5 6 show ?thesis by (intro conjI impI) blast+
qed

theorem MostAccessed_ranked_witness:
  "sortsByLess (sortPairs :: nat CacheItemPair list \<Rightarrow> nat CacheItemPair list)
   \<and> rangeOrder [0..<100] (items accessTable)
   \<and> int (length (MostAccessed sortPairs [0..<100] 5 accessTable)) \<le> 5
   \<and> length (MostAccessed sortPairs [0..<100] 5 accessTable) = 5
   \<and> sorted_wrt (\<lambda>a b. accessCount a \<ge> accessCount b)
        (MostAccessed sortPairs [0..<100] 5 accessTable)
   \<and> map key (MostAccessed sortPairs [0..<100] 100 accessTable) = rev [0..<100]
   \<and> length (MostAccessed sortPairs [0..<100] 99 accessTable) = 99
   \<and> map key (MostAccessed sortPairs [0..<100] 5 accessTable) = [99, 98, 97, 96, 95]
   \<and> map key (MostAccessed sortPairs [0..<100] 99 accessTable) = rev [1..<100]"
proof -
  have o: "rangeOrder [0..<100] (items accessTable)"
    by (simp add: rangeOrder_def accessTable_simps)
  have d: "dom (items accessTable) = (\<lambda>i. i) ` {0..<100}"
    by (simp add: accessTable_simps)
  have e: "\<forall>i<100. \<exists>it. items accessTable i = Some it \<and> key it = i \<and> accessCount it = int i"
    by (simp add: accessTable_simps NewCacheItem_def)
  from MostAccessed_ranked [OF sortPairs_sorts o, of 5 "\<lambda>i. i"] d e
  have a: "int (length (MostAccessed sortPairs [0..<100] 5 accessTable)) \<le> 5
   \<and> length (MostAccessed sortPairs [0..<100] 5 accessTable) = 5
   \<and> sorted_wrt (\<lambda>a b. accessCount a \<ge> accessCount b)
        (MostAccessed sortPairs [0..<100] 5 accessTable)
   \<and> map key (MostAccessed sortPairs [0..<100] 100 accessTable) = rev [0..<100]
   \<and> length (MostAccessed sortPairs [0..<100] 99 accessTable) = 99"
    and b: "\<And>m. map key (MostAccessed sortPairs [0..<100] m accessTable)
              = take (nat m) (rev [0..<100])"
    by (simp_all add: accessTable_simps)
  have 5: "map key (MostAccessed sortPairs [0..<100] 5 accessTable) = [99, 98, 97, 96, 95]"
    by (simp add: b [of 5] take_rev)
  have 99: "map key (MostAccessed sortPairs [0..<100] 99 accessTable) = rev [1..<100]"
    by (simp add: b [of 99] take_rev)
  from sortPairs_sorts o a 5 99 show ?thesis by - (intro conjI; (elim conjE)?; assumption)
qed

end
